theory Spec2Isabelle
  imports Main "HOL-Library.Word"
begin

unbundle bit_operations_syntax

section \<open>Bytes, machine integers and failures\<close>

text \<open>
  Go's \<open>byte\<close>, \<open>uint32\<close> and \<open>uint64\<close> are words of that width (arithmetic wraps);
  \<open>[]byte\<close> is a list of bytes, and a nil slice where the code tests for nil is
  \<open>None\<close>. Go's \<open>int\<close> and \<open>int64\<close> are \<open>int\<close>, with the two's complement wrap-around
  written out (\<open>wrap_int64\<close>) where a value can leave the 64-bit range.
\<close>

type_synonym byte = "8 word"
type_synonym bytes = "byte list"
type_synonym uint32 = "32 word"
type_synonym uint64 = "64 word"

text \<open>
  Every error return and every run-time panic of the source is a value. The
  \<open>Panic\<close> constructors are Go run-time panics: they are not \<open>error\<close> values, so an
  \<open>if err == nil\<close> in the source does not catch them.
\<close>

datatype failure =
    KeySizeError            \<comment> \<open>\<open>aes.NewCipher\<close>: the key is not 16, 24 or 32 bytes\<close>
  | CryptoSizeError         \<comment> \<open>"data length not multiple of block size"\<close>
  | KeyLengthError          \<comment> \<open>\<open>getCachedCipher\<close>: "key must be 16 bytes"\<close>
  | KeyNotDerived           \<comment> \<open>"... not derived"\<close>
  | ReadError               \<comment> \<open>an error of \<open>ReadAt\<close> (end of file included)\<close>
  | PanicIndexOutOfRange    \<comment> \<open>run-time panic: index out of range\<close>
  | PanicSliceBounds        \<comment> \<open>run-time panic: slice bounds out of range\<close>
  | PanicMakeSliceLen       \<comment> \<open>run-time panic: \<open>makeslice\<close>, len out of range\<close>

definition is_panic :: "failure \<Rightarrow> bool" where
  "is_panic e = (e = PanicIndexOutOfRange \<or> e = PanicSliceBounds \<or> e = PanicMakeSliceLen)"

text \<open>\<open>int64(x)\<close> of a wider or unsigned value: two's complement wrap-around.\<close>

definition wrap_int64 :: "int \<Rightarrow> int" where
  "wrap_int64 x = (x + 2 ^ 63) mod 2 ^ 64 - 2 ^ 63"

text \<open>\<open>xs[a:b]\<close> for \<open>a \<le> b \<le> len(xs)\<close>.\<close>

definition subslice :: "'a list \<Rightarrow> nat \<Rightarrow> nat \<Rightarrow> 'a list" where
  "subslice xs a b = take (b - a) (drop a xs)"

text \<open>
  Writing the block \<open>src\<close> into \<open>dst[i : i + len(src)]\<close>, as \<open>block.Decrypt(out[i:i+16], ...)\<close>
  does with the 16 bytes it produces.
\<close>

definition write_at :: "bytes \<Rightarrow> nat \<Rightarrow> bytes \<Rightarrow> bytes" where
  "write_at dst i src = take i dst @ src @ drop (i + length src) dst"

text \<open>
  \<open>copy(dst[:], src)\<close> into a zeroed 16-byte array (\<open>CryptoKey\<close>, \<open>CryptoCounter\<close>, or
  \<open>make([]byte, 16)\<close>): the first \<open>min(16, len(src))\<close> bytes of \<open>src\<close>, then zeros.
\<close>

definition copy16 :: "bytes \<Rightarrow> bytes" where
  "copy16 src = take 16 src @ replicate (16 - length src) 0"

section \<open>crypto: AES-ECB and AES-CTR (pkg/crypto)\<close>

text \<open>
  The AES block transformation itself is Go's standard library (\<open>crypto/aes\<close>), not code
  of this repository: it is a parameter of the model, a pair of functions of the key and
  a 16-byte block. What the standard library guarantees of it is stated as the
  predicates \<open>aes_block_sized\<close> and \<open>aes_inverse\<close>, assumed only where a claim needs them.
\<close>

record aes_prim =
  aes_encrypt :: "bytes \<Rightarrow> bytes \<Rightarrow> bytes"
  aes_decrypt :: "bytes \<Rightarrow> bytes \<Rightarrow> bytes"

definition aes_block_sized :: "aes_prim \<Rightarrow> bool" where
  "aes_block_sized A \<longleftrightarrow>
     (\<forall>k b. length b = 16 \<longrightarrow>
        length (aes_encrypt A k b) = 16 \<and> length (aes_decrypt A k b) = 16)"

definition aes_inverse :: "aes_prim \<Rightarrow> bool" where
  "aes_inverse A \<longleftrightarrow>
     (\<forall>k b. length b = 16 \<longrightarrow>
        aes_decrypt A k (aes_encrypt A k b) = b \<and> aes_encrypt A k (aes_decrypt A k b) = b)"

text \<open>\<open>aes.NewCipher(key)\<close>: accepts keys of 16, 24 or 32 bytes.\<close>

definition aes_NewCipher :: "bytes \<Rightarrow> failure + bytes" where
  "aes_NewCipher key =
     (if length key = 16 \<or> length key = 24 \<or> length key = 32 then Inr key
      else Inl KeySizeError)"

text \<open>
  The loop of \<open>ECBDecrypt\<close> and \<open>ECBEncrypt\<close>:
  \<^verbatim>\<open>for i := 0; i < len(data); i += 16 { block.Decrypt(out[i:i+16], data[i:i+16]) }\<close>
  over the two buffers it touches, the caller's \<open>data\<close> and the result \<open>out\<close>.
\<close>

record ecb_bufs =
  ecb_data :: bytes
  ecb_out :: bytes

function ecb_loop :: "(bytes \<Rightarrow> bytes) \<Rightarrow> nat \<Rightarrow> ecb_bufs \<Rightarrow> ecb_bufs" where
  "ecb_loop f i s =
     (if i < length (ecb_data s)
      then ecb_loop f (i + 16)
             (s\<lparr>ecb_out := write_at (ecb_out s) i (f (subslice (ecb_data s) i (i + 16)))\<rparr>)
      else s)"
  by pat_completeness auto
termination
  by (relation "measure (\<lambda>(f, i, s). length (ecb_data s) - i)") auto

declare ecb_loop.simps [simp del]

text \<open>\<open>out := make([]byte, len(data))\<close>, then the loop.\<close>

definition ecb_run :: "(bytes \<Rightarrow> bytes) \<Rightarrow> bytes \<Rightarrow> ecb_bufs" where
  "ecb_run f data = ecb_loop f 0 \<lparr>ecb_data = data, ecb_out = replicate (length data) 0\<rparr>"

definition ECBDecrypt :: "aes_prim \<Rightarrow> bytes \<Rightarrow> bytes \<Rightarrow> failure + bytes" where
  "ECBDecrypt A data key =
     (case aes_NewCipher key of
        Inl e \<Rightarrow> Inl e
      | Inr block \<Rightarrow>
          if length data mod 16 \<noteq> 0 then Inl CryptoSizeError
          else Inr (ecb_out (ecb_run (aes_decrypt A block) data)))"

definition ECBEncrypt :: "aes_prim \<Rightarrow> bytes \<Rightarrow> bytes \<Rightarrow> failure + bytes" where
  "ECBEncrypt A data key =
     (case aes_NewCipher key of
        Inl e \<Rightarrow> Inl e
      | Inr block \<Rightarrow>
          if length data mod 16 \<noteq> 0 then Inl CryptoSizeError
          else Inr (ecb_out (ecb_run (aes_encrypt A block) data)))"

section \<open>keys: the key store and the derivation ladder (pkg/keys)\<close>

text \<open>
  The package-level variables: the map \<open>keys\<close> and the derived arrays
  \<open>keyAreaKeys [32][3][]byte\<close> and \<open>titleKeks [32][]byte\<close>. The arrays are functions of
  the index; every access in the model checks the index against the array's length,
  since Go panics on an index outside it. A nil entry is \<open>None\<close>.
\<close>

record keystore =
  keys :: "string \<rightharpoonup> bytes"
  keyAreaKeys :: "nat \<Rightarrow> nat \<Rightarrow> bytes option"
  titleKeks :: "nat \<Rightarrow> bytes option"

definition hexdigit :: "nat \<Rightarrow> char" where
  "hexdigit n = ''0123456789abcdef'' ! n"

text \<open>\<open>fmt.Sprintf("master_key_%02x", i)\<close>, for \<open>i < 256\<close>.\<close>

definition masterKeyName :: "nat \<Rightarrow> string" where
  "masterKeyName i = ''master_key_'' @ [hexdigit (i div 16), hexdigit (i mod 16)]"

definition DecryptTitleKey :: "aes_prim \<Rightarrow> keystore \<Rightarrow> bytes \<Rightarrow> int \<Rightarrow> failure + bytes" where
  "DecryptTitleKey A ks encryptedKey keyGen =
     (if keyGen < 0 \<or> 32 \<le> keyGen then Inl PanicIndexOutOfRange
      else case titleKeks ks (nat keyGen) of
             None \<Rightarrow> Inl KeyNotDerived
           | Some kek \<Rightarrow> ECBDecrypt A encryptedKey kek)"

definition GenerateKek ::
  "aes_prim \<Rightarrow> bytes \<Rightarrow> bytes \<Rightarrow> bytes \<Rightarrow> bytes option \<Rightarrow> failure + bytes" where
  "GenerateKek A src masterKey kekSeed keySeed =
     (case ECBDecrypt A kekSeed masterKey of
        Inl e \<Rightarrow> Inl e
      | Inr kek \<Rightarrow>
          (case ECBDecrypt A src kek of
             Inl e \<Rightarrow> Inl e
           | Inr srcKek \<Rightarrow>
               (case keySeed of
                  Some seed \<Rightarrow> ECBDecrypt A seed srcKek
                | None \<Rightarrow> Inr srcKek)))"

text \<open>The inner loop of \<open>DeriveKeys\<close> over the three key area key types.\<close>

definition derive_kak ::
  "aes_prim \<Rightarrow> bytes \<Rightarrow> bytes \<Rightarrow> bytes option list \<Rightarrow> bytes \<Rightarrow> nat \<Rightarrow> keystore \<Rightarrow> nat \<Rightarrow> keystore" where
  "derive_kak A aesKekGen aesKeyGen keyAreaSources masterKey i ks typeIdx =
     (case keyAreaSources ! typeIdx of
        None \<Rightarrow> ks
      | Some src \<Rightarrow>
          (case GenerateKek A src masterKey aesKekGen (Some aesKeyGen) of
             Inr kak \<Rightarrow> ks\<lparr>keyAreaKeys := (keyAreaKeys ks)(i := (keyAreaKeys ks i)(typeIdx := Some kak))\<rparr>
           | Inl e \<Rightarrow> ks))"

text \<open>The body of the loop of \<open>DeriveKeys\<close> over the 32 master key generations.\<close>

definition derive_generation ::
  "aes_prim \<Rightarrow> bytes \<Rightarrow> bytes \<Rightarrow> bytes option \<Rightarrow> bytes option list \<Rightarrow> keystore \<Rightarrow> nat \<Rightarrow> keystore" where
  "derive_generation A aesKekGen aesKeyGen titleKekSource keyAreaSources ks i =
     (case keys ks (masterKeyName i) of
        None \<Rightarrow> ks
      | Some masterKey \<Rightarrow>
          (let ks1 =
                 (case titleKekSource of
                    None \<Rightarrow> ks
                  | Some src \<Rightarrow>
                      (case ECBDecrypt A src masterKey of
                         Inr tk \<Rightarrow> ks\<lparr>titleKeks := (titleKeks ks)(i := Some tk)\<rparr>
                       | Inl e \<Rightarrow> ks))
           in foldl (derive_kak A aesKekGen aesKeyGen keyAreaSources masterKey i) ks1 [0..<3]))"

definition DeriveKeys :: "aes_prim \<Rightarrow> keystore \<Rightarrow> keystore" where
  "DeriveKeys A ks =
     (let aesKekGen = keys ks ''aes_kek_generation_source'';
          aesKeyGen = keys ks ''aes_key_generation_source'';
          titleKekSource = keys ks ''titlekek_source'';
          keyAreaSources =
            [keys ks ''key_area_key_application_source'',
             keys ks ''key_area_key_ocean_source'',
             keys ks ''key_area_key_system_source'']
      in case aesKekGen of
           None \<Rightarrow> ks
         | Some kekGen \<Rightarrow>
             (case aesKeyGen of
                None \<Rightarrow> ks
              | Some keyGen \<Rightarrow>
                  foldl (derive_generation A kekGen keyGen titleKekSource keyAreaSources) ks [0..<32]))"

definition UnwrapAesWrappedTitleKey ::
  "aes_prim \<Rightarrow> keystore \<Rightarrow> bytes \<Rightarrow> int \<Rightarrow> failure + bytes" where
  "UnwrapAesWrappedTitleKey A ks wrappedKey keyGen =
     (if keyGen < 0 \<or> 32 \<le> keyGen then Inl PanicIndexOutOfRange
      else case keyAreaKeys ks (nat keyGen) 0 of
             None \<Rightarrow> Inl KeyNotDerived
           | Some kak \<Rightarrow> ECBDecrypt A wrappedKey kak)"

section \<open>The NCA header (pkg/fs/nca_header.go)\<close>

record SectionEntry =
  MediaStartOffset :: uint32
  MediaEndOffset :: uint32

record BktrHeader =
  BktrOffset :: uint64
  BktrSize :: uint64

record FsHeader =
  CryptoType :: byte
  CryptoCounter :: bytes
  BktrSubsection :: "BktrHeader option"

record NcaHeader =
  ContentType :: byte
  KeyGeneration :: byte
  KeyGeneration2 :: byte
  SectionTables :: "SectionEntry list"
  KeyArea :: bytes
  TitleKey :: "bytes option"
  FsHeaders :: "FsHeader list"

text \<open>
  The key generation of \<open>ParseNcaHeader\<close>:
  \<^verbatim>\<open>keyGen := int(header.KeyGeneration)
  if header.KeyGeneration2 > header.KeyGeneration { keyGen = int(header.KeyGeneration2) }
  keyGen = keyGen - 1
  if keyGen < 0 { keyGen = 0 }\<close>
\<close>

definition headerKeyGen :: "byte \<Rightarrow> byte \<Rightarrow> int" where
  "headerKeyGen keyGeneration keyGeneration2 =
     (let keyGen = uint keyGeneration;
          keyGen = (if keyGeneration2 > keyGeneration then uint keyGeneration2 else keyGen);
          keyGen = keyGen - 1
      in if keyGen < 0 then 0 else keyGen)"

text \<open>
  The title key step of \<open>ParseNcaHeader\<close>: the key area's slot at 0x20 is unwrapped
  with the header's key generation; an error is dropped (the header keeps no title
  key), a panic is not.
\<close>

definition ParseNcaHeader_titleKey :: "aes_prim \<Rightarrow> keystore \<Rightarrow> NcaHeader \<Rightarrow> failure + NcaHeader" where
  "ParseNcaHeader_titleKey A ks header =
     (let keyGen = headerKeyGen (KeyGeneration header) (KeyGeneration2 header);
          encryptedTitleKey = subslice (KeyArea header) 0x20 0x30
      in case UnwrapAesWrappedTitleKey A ks encryptedTitleKey keyGen of
           Inr titleKey \<Rightarrow> Inr (header\<lparr>TitleKey := Some titleKey\<rparr>)
         | Inl e \<Rightarrow> if is_panic e then Inl e else Inr header)"

text \<open>
  The same computation in \<open>processNsp\<close> (the command's main package), for the ticket's
  encrypted title key, from the header of the first NCA.
\<close>

definition ticketKeyGen :: "NcaHeader \<Rightarrow> int" where
  "ticketKeyGen header =
     (let keyGen = uint (KeyGeneration header);
          keyGen = (if KeyGeneration2 header > KeyGeneration header
                    then uint (KeyGeneration2 header) else keyGen);
          keyGen = keyGen - 1
      in if keyGen < 0 then 0 else keyGen)"

definition processNsp_titleKey :: "aes_prim \<Rightarrow> keystore \<Rightarrow> bytes \<Rightarrow> NcaHeader \<Rightarrow> failure + bytes" where
  "processNsp_titleKey A ks encryptedKey header =
     DecryptTitleKey A ks encryptedKey (ticketKeyGen header)"

text \<open>
  \<open>getCachedCipher\<close>: the cache only saves the key schedule; what it returns is the
  cipher of \<open>aes.NewCipher\<close> for the key, after the check that the key has 16 bytes.
\<close>

definition getCachedCipher :: "bytes \<Rightarrow> failure + bytes" where
  "getCachedCipher key =
     (if length key \<noteq> 16 then Inl KeyLengthError else aes_NewCipher key)"

text \<open>
  \<open>binary.BigEndian.PutUint64(b, v)\<close> of Go's \<open>encoding/binary\<close>:
  \<open>b[0] = byte(v >> 56)\<close>, ..., \<open>b[7] = byte(v)\<close>.
\<close>

definition BigEndian_PutUint64 :: "uint64 \<Rightarrow> bytes" where
  "BigEndian_PutUint64 v =
     [ucast (drop_bit 56 v), ucast (drop_bit 48 v), ucast (drop_bit 40 v),
      ucast (drop_bit 32 v), ucast (drop_bit 24 v), ucast (drop_bit 16 v),
      ucast (drop_bit 8 v), ucast v]"

text \<open>
  A CTR stream as \<open>cipher.NewCTR(block, counter)\<close> returns it: the cipher's key and the
  current counter block.
\<close>

record ctr_stream =
  stream_key :: bytes
  stream_ctr :: bytes

text \<open>
  \<open>NewCTRStream\<close>: \<open>absoluteOffset >> 4\<close> is an arithmetic shift of an \<open>int64\<close> (the floor
  of the division by 16), and \<open>uint64(...)\<close> reads its two's complement bits.
\<close>

definition NewCTRStream :: "bytes \<Rightarrow> bytes \<Rightarrow> int \<Rightarrow> failure + ctr_stream" where
  "NewCTRStream key iv absoluteOffset =
     (case getCachedCipher key of
        Inl e \<Rightarrow> Inl e
      | Inr block \<Rightarrow>
          (let counter = copy16 iv;
               counter = write_at counter 8 (BigEndian_PutUint64 (word_of_int (absoluteOffset div 16)))
           in Inr \<lparr>stream_key = block, stream_ctr = counter\<rparr>))"

text \<open>
  Counter mode itself is Go's \<open>crypto/cipher\<close>. Its \<open>XORKeyStream\<close> XORs the source with
  the key stream: the encryption of the counter block, then of the counter block
  incremented as one big-endian number
  (\<^verbatim>\<open>for i := len(ctr) - 1; i >= 0; i-- { ctr[i]++; if ctr[i] != 0 { break } }\<close>),
  and so on. \<open>ctr_inc_rev\<close> is that increment on the counter read from its last byte.
  Every stream of this program is used for one call of \<open>XORKeyStream\<close>, so the model
  is the function from a fresh stream and the source to the bytes written.
\<close>

fun ctr_inc_rev :: "bytes \<Rightarrow> bytes" where
  "ctr_inc_rev [] = []"
| "ctr_inc_rev (b # bs) = (if b + 1 = 0 then 0 # ctr_inc_rev bs else (b + 1) # bs)"

definition ctr_inc :: "bytes \<Rightarrow> bytes" where
  "ctr_inc ctr = rev (ctr_inc_rev (rev ctr))"

fun ctr_xor :: "(bytes \<Rightarrow> bytes) \<Rightarrow> bytes \<Rightarrow> bytes \<Rightarrow> bytes" where
  "ctr_xor E ctr src =
     (if src = [] then []
      else map2 (XOR) (take 16 src) (E ctr) @ ctr_xor E (ctr_inc ctr) (drop 16 src))"

declare ctr_xor.simps [simp del]

definition XORKeyStream :: "aes_prim \<Rightarrow> ctr_stream \<Rightarrow> bytes \<Rightarrow> bytes" where
  "XORKeyStream A stream src = ctr_xor (aes_encrypt A (stream_key stream)) (stream_ctr stream) src"

text \<open>
  The pattern of every use of the stream in this program (\<open>decryptChunk\<close>):
  \<^verbatim>\<open>stream, err := crypto.NewCTRStream(key, counter, offset)
  if err == nil { stream.XORKeyStream(slice, slice) }\<close>
  The slice is left as it is when the stream cannot be made.
\<close>

definition ctr_apply :: "aes_prim \<Rightarrow> bytes \<Rightarrow> bytes \<Rightarrow> int \<Rightarrow> bytes \<Rightarrow> bytes" where
  "ctr_apply A key iv absoluteOffset src =
     (case NewCTRStream key iv absoluteOffset of
        Inr stream \<Rightarrow> XORKeyStream A stream src
      | Inl e \<Rightarrow> src)"

section \<open>The NCZ section entry (pkg/nsz/ncz.go)\<close>

text \<open>
  \<open>NczSectionEntry\<close>. The fields carry the prefix \<open>sec_\<close>, since \<open>CryptoType\<close> and
  \<open>CryptoCounter\<close> are also fields of \<open>FsHeader\<close>; \<open>CryptoKey\<close> and \<open>CryptoCounter\<close> are
  the arrays \<open>[16]byte\<close>.
\<close>

record NczSectionEntry =
  sec_Offset :: uint64
  sec_Size :: uint64
  sec_CryptoType :: uint64
  sec_Padding :: uint64
  sec_CryptoKey :: bytes
  sec_CryptoCounter :: bytes

section \<open>The reader\<close>

text \<open>
  The reader is an \<open>io.ReaderAt\<close> over a file (an \<open>os.File\<close> or an \<open>io.SectionReader\<close>),
  modelled by the file's bytes. \<open>ReadAt(p, off)\<close> reads \<open>len(p)\<close> bytes at \<open>off\<close>; it
  returns the bytes it read and whether it returned an error, which it does when it
  read fewer than \<open>len(p)\<close> bytes (end of file) or the offset is negative.
\<close>

definition ReadAt :: "bytes \<Rightarrow> nat \<Rightarrow> int \<Rightarrow> bytes \<times> bool" where
  "ReadAt file n off =
     (if off < 0 then ([], True)
      else (let got = take n (drop (nat off) file) in (got, length got < n)))"

section \<open>The BKTR subsection index (pkg/fs/bktr.go)\<close>

text \<open>
  \<open>BktrSubsectionEntry\<close> and \<open>BktrBucket\<close>. (\<open>BktrHeader\<close>, above, keeps the two fields of
  the Go struct that the code reads, \<open>Offset\<close> and \<open>Size\<close>.) The fields \<open>Size\<close> and \<open>Padding\<close>
  carry a prefix to keep them apart from the other records' fields.
\<close>

record BktrSubsectionEntry =
  VirtualOffset :: uint64
  entry_Size :: uint64
  entry_Padding :: uint32
  Ctr :: uint32

record BktrBucket =
  bucket_Padding :: uint32
  EntryCount :: uint32
  EndOffset :: uint64
  Entries :: "BktrSubsectionEntry list"

text \<open>
  \<open>binary.LittleEndian.Uint32\<close> and \<open>Uint64\<close> of Go's \<open>encoding/binary\<close>, on a slice of 4
  and of 8 bytes: \<open>uint32(b[0]) | uint32(b[1])<<8 | ...\<close>.
\<close>

definition LittleEndian_Uint32 :: "bytes \<Rightarrow> uint32" where
  "LittleEndian_Uint32 b =
     ucast (b ! 0) OR push_bit 8 (ucast (b ! 1)) OR push_bit 16 (ucast (b ! 2))
       OR push_bit 24 (ucast (b ! 3))"

definition LittleEndian_Uint64 :: "bytes \<Rightarrow> uint64" where
  "LittleEndian_Uint64 b =
     ucast (b ! 0) OR push_bit 8 (ucast (b ! 1)) OR push_bit 16 (ucast (b ! 2))
       OR push_bit 24 (ucast (b ! 3)) OR push_bit 32 (ucast (b ! 4))
       OR push_bit 40 (ucast (b ! 5)) OR push_bit 48 (ucast (b ! 6))
       OR push_bit 56 (ucast (b ! 7))"

text \<open>One entry read at \<open>entryPos\<close>; its size is computed afterwards.\<close>

definition parse_entry :: "bytes \<Rightarrow> nat \<Rightarrow> BktrSubsectionEntry" where
  "parse_entry bktrData entryPos =
     \<lparr>VirtualOffset = LittleEndian_Uint64 (subslice bktrData entryPos (entryPos + 8)),
      entry_Size = 0,
      entry_Padding = LittleEndian_Uint32 (subslice bktrData (entryPos + 8) (entryPos + 12)),
      Ctr = LittleEndian_Uint32 (subslice bktrData (entryPos + 12) (entryPos + 16))\<rparr>"

text \<open>
  The loop over a bucket's entries:
  \<^verbatim>\<open>for j := uint32(0); j < bucket.EntryCount; j++ {
      entryPos := entriesPos + int(j)*16
      if entryPos+16 > len(bktrData) { break }
      ...
      bucket.Entries = append(bucket.Entries, entry)
  }\<close>
\<close>

function entry_loop ::
  "bytes \<Rightarrow> nat \<Rightarrow> nat \<Rightarrow> nat \<Rightarrow> BktrSubsectionEntry list \<Rightarrow> BktrSubsectionEntry list" where
  "entry_loop bktrData entriesPos entryCount j entries =
     (if j < entryCount
      then (let entryPos = entriesPos + j * 16
            in if entryPos + 16 > length bktrData then entries
               else entry_loop bktrData entriesPos entryCount (j + 1)
                      (entries @ [parse_entry bktrData entryPos]))
      else entries)"
  by pat_completeness auto
termination
  by (relation "measure (\<lambda>(d, p, n, j, es). n - j)") auto

declare entry_loop.simps [simp del]

text \<open>
  The sizes of a bucket's entries: the difference to the next entry's virtual offset,
  and for the last entry the difference to the bucket's end offset (in \<open>uint64\<close>).
\<close>

fun calc_sizes :: "BktrSubsectionEntry list \<Rightarrow> uint64 \<Rightarrow> BktrSubsectionEntry list" where
  "calc_sizes [] endOffset = []"
| "calc_sizes [e] endOffset = [e\<lparr>entry_Size := endOffset - VirtualOffset e\<rparr>]"
| "calc_sizes (e # e' # es) endOffset =
     e\<lparr>entry_Size := VirtualOffset e' - VirtualOffset e\<rparr> # calc_sizes (e' # es) endOffset"

text \<open>
  The loop over the buckets; \<open>break\<close> leaves it with the buckets appended so far:
  \<^verbatim>\<open>for i := uint32(0); i < bucketCount; i++ {
      if bucketPos+16 > len(bktrData) { break }
      bucket := BktrBucket{...}
      if bucket.EntryCount > 0xFFFF { break }
      entriesPos := bucketPos + 16
      ...
      buckets = append(buckets, bucket)
      bucketPos = entriesPos + int(bucket.EntryCount)*16
  }\<close>
\<close>

function bucket_loop :: "bytes \<Rightarrow> nat \<Rightarrow> nat \<Rightarrow> nat \<Rightarrow> BktrBucket list \<Rightarrow> BktrBucket list" where
  "bucket_loop bktrData bucketCount i bucketPos buckets =
     (if i < bucketCount
      then if bucketPos + 16 > length bktrData then buckets
           else (let padding = LittleEndian_Uint32 (subslice bktrData bucketPos (bucketPos + 4));
                     entryCount = LittleEndian_Uint32 (subslice bktrData (bucketPos + 4) (bucketPos + 8));
                     endOffset = LittleEndian_Uint64 (subslice bktrData (bucketPos + 8) (bucketPos + 16))
                 in if entryCount > 0xFFFF then buckets
                    else (let entriesPos = bucketPos + 16;
                              entries = entry_loop bktrData entriesPos (unat entryCount) 0 [];
                              entries = calc_sizes entries endOffset;
                              bucket = \<lparr>bucket_Padding = padding, EntryCount = entryCount,
                                        EndOffset = endOffset, Entries = entries\<rparr>
                          in bucket_loop bktrData bucketCount (i + 1)
                               (entriesPos + unat entryCount * 16) (buckets @ [bucket])))
      else buckets)"
  by pat_completeness auto
termination
  by (relation "measure (\<lambda>(d, n, i, p, bs). n - i)") auto

declare bucket_loop.simps [simp del]

text \<open>
  \<open>ParseBktrSubsectionBuckets\<close> after the decryption: the checks of the decrypted index
  header (\<open>return nil, nil\<close> is the empty list) and the loop over the buckets.
\<close>

definition parse_bktr_data :: "bytes \<Rightarrow> BktrBucket list" where
  "parse_bktr_data bktrData =
     (if length bktrData < 16 then []
      else (let bucketCount = LittleEndian_Uint32 (subslice bktrData 4 8)
            in if bucketCount = 0 \<or> bucketCount > 100 then []
               else (let headerSize = 16 + 0x3FF0
                     in if length bktrData < headerSize then []
                        else bucket_loop bktrData (unat bucketCount) 0 headerSize [])))"

text \<open>
  The first half of \<open>ParseBktrSubsectionBuckets\<close>: the index is read from the file and
  decrypted in place. \<open>make([]byte, bktrHeader.Size)\<close> panics when the size does not fit
  a non-negative \<open>int\<close> (how much memory there is to allocate is not modelled);
  \<open>int64(bktrHeader.Offset)\<close> reads the field as two's complement; any error of \<open>ReadAt\<close>
  (a short read included) and of \<open>NewCTRStream\<close> is returned.
\<close>

definition read_bktr_data ::
  "aes_prim \<Rightarrow> bytes \<Rightarrow> int \<Rightarrow> BktrHeader \<Rightarrow> bytes \<Rightarrow> bytes \<Rightarrow> failure + bytes" where
  "read_bktr_data A r sectionOffset bh titleKey baseCounter =
     (let bktrDataOffset = wrap_int64 (sectionOffset + sint (BktrOffset bh))
      in if 2 ^ 63 \<le> unat (BktrSize bh) then Inl PanicMakeSliceLen
         else (case ReadAt r (unat (BktrSize bh)) bktrDataOffset of
                 (bktrData, err) \<Rightarrow>
                   if err then Inl ReadError
                   else (case NewCTRStream titleKey baseCounter bktrDataOffset of
                           Inl e \<Rightarrow> Inl e
                         | Inr stream \<Rightarrow> Inr (XORKeyStream A stream bktrData))))"

text \<open>
  \<open>ParseBktrSubsectionBuckets\<close>: the guards that return no bucket and no error, the read
  and the parse.
\<close>

definition ParseBktrSubsectionBuckets ::
  "aes_prim \<Rightarrow> bytes \<Rightarrow> int \<Rightarrow> BktrHeader option \<Rightarrow> bytes option \<Rightarrow> bytes
     \<Rightarrow> failure + BktrBucket list" where
  "ParseBktrSubsectionBuckets A r sectionOffset bktrHeader titleKey baseCounter =
     (case bktrHeader of
        None \<Rightarrow> Inr []
      | Some bh \<Rightarrow>
          if BktrSize bh = 0 then Inr []
          else (case titleKey of
                  None \<Rightarrow> Inr []
                | Some tk \<Rightarrow>
                    if length baseCounter < 16 then Inr []
                    else (case read_bktr_data A r sectionOffset bh tk baseCounter of
                            Inl e \<Rightarrow> Inl e
                          | Inr bktrData \<Rightarrow> Inr (parse_bktr_data bktrData))))"

text \<open>
  \<open>SetBktrCounter\<close>: a copy of the base counter in 16 bytes, with the bytes 4 to 7 set to
  the counter value, most significant byte first.
\<close>

definition SetBktrCounter :: "bytes \<Rightarrow> uint32 \<Rightarrow> bytes" where
  "SetBktrCounter baseCounter ctrVal =
     (let counter = copy16 baseCounter;
          counter = counter[4 := ucast (drop_bit 24 ctrVal)];
          counter = counter[5 := ucast (drop_bit 16 ctrVal)];
          counter = counter[6 := ucast (drop_bit 8 ctrVal)];
          counter = counter[7 := ucast ctrVal]
      in counter)"

section \<open>The section planner (pkg/fs/nca.go)\<close>

definition MediaSize :: uint64 where
  "MediaSize = 0x200"

definition CryptoTypeCTR :: uint64 where
  "CryptoTypeCTR = 3"

definition CryptoTypeBKTR :: byte where
  "CryptoTypeBKTR = 4"

text \<open>
  \<open>buildBaseIV\<close>: the 8-byte counter copied to the bytes 8 to 15 of a zeroed 16-byte
  buffer, and the buffer reversed.
\<close>

definition buildBaseIV :: "bytes \<Rightarrow> bytes" where
  "buildBaseIV counter =
     rev (replicate 8 0 @ take 8 counter @ replicate (8 - length counter) 0)"

text \<open>
  \<open>if n.Header.TitleKey != nil { copy(sec.CryptoKey[:], n.Header.TitleKey) }\<close> on the
  zeroed array.
\<close>

definition section_key :: "bytes option \<Rightarrow> bytes" where
  "section_key titleKey = (case titleKey of None \<Rightarrow> replicate 16 0 | Some k \<Rightarrow> copy16 k)"

text \<open>
  The body of the two nested loops of \<open>parseBktrSections\<close>, on the state they update:
  the sections appended so far and \<open>lastEntryEnd\<close>.
\<close>

definition bktr_entry_step ::
  "bytes option \<Rightarrow> uint64 \<Rightarrow> bytes \<Rightarrow> NczSectionEntry list \<times> uint64 \<Rightarrow> BktrSubsectionEntry
     \<Rightarrow> NczSectionEntry list \<times> uint64" where
  "bktr_entry_step titleKey sectionOffset baseIV st entry =
     (case st of
        (sections, lastEntryEnd) \<Rightarrow>
          if entry_Size entry = 0 then (sections, lastEntryEnd)
          else (let sec = \<lparr>sec_Offset = sectionOffset + VirtualOffset entry,
                           sec_Size = entry_Size entry,
                           sec_CryptoType = CryptoTypeCTR,
                           sec_Padding = 0,
                           sec_CryptoKey = section_key titleKey,
                           sec_CryptoCounter = copy16 (SetBktrCounter baseIV (Ctr entry))\<rparr>;
                    end = sectionOffset + VirtualOffset entry + entry_Size entry
                in (sections @ [sec], if end > lastEntryEnd then end else lastEntryEnd)))"

definition bktr_sections ::
  "bytes option \<Rightarrow> uint64 \<Rightarrow> uint64 \<Rightarrow> bytes \<Rightarrow> BktrBucket list \<Rightarrow> NczSectionEntry list" where
  "bktr_sections titleKey sectionOffset sectionEnd baseIV buckets =
     (case foldl (\<lambda>st bucket. foldl (bktr_entry_step titleKey sectionOffset baseIV) st (Entries bucket))
             ([], 0) buckets of
        (sections, lastEntryEnd) \<Rightarrow>
          if lastEntryEnd < sectionEnd
          then sections @
               [\<lparr>sec_Offset = lastEntryEnd,
                 sec_Size = sectionEnd - lastEntryEnd,
                 sec_CryptoType = CryptoTypeCTR,
                 sec_Padding = 0,
                 sec_CryptoKey = section_key titleKey,
                 sec_CryptoCounter = copy16 baseIV\<rparr>]
          else sections)"

text \<open>
  \<open>parseBktrSections\<close>: no sections when the parser returns an error or no bucket. A
  panic of the parser is not an error value and is not caught.
\<close>

definition parseBktrSections ::
  "aes_prim \<Rightarrow> bytes \<Rightarrow> bytes option \<Rightarrow> uint64 \<Rightarrow> uint64 \<Rightarrow> BktrHeader option \<Rightarrow> bytes
     \<Rightarrow> failure + NczSectionEntry list" where
  "parseBktrSections A r titleKey sectionOffset sectionEnd bktrHeader baseIV =
     (case ParseBktrSubsectionBuckets A r (sint sectionOffset) bktrHeader titleKey baseIV of
        Inl e \<Rightarrow> if is_panic e then Inl e else Inr []
      | Inr buckets \<Rightarrow>
          if length buckets = 0 then Inr []
          else Inr (bktr_sections titleKey sectionOffset sectionEnd baseIV buckets))"

text \<open>
  The body of the loop of \<open>GetEncryptionSections\<close> for one section table entry and its
  FS header: the sections it appends.
\<close>

definition entry_sections ::
  "aes_prim \<Rightarrow> bytes \<Rightarrow> bytes option \<Rightarrow> SectionEntry \<Rightarrow> FsHeader \<Rightarrow> failure + NczSectionEntry list" where
  "entry_sections A r titleKey entry fsHeader =
     (if MediaStartOffset entry = 0 \<and> MediaEndOffset entry = 0 then Inr []
      else (let sectionOffset = ucast (MediaStartOffset entry) * MediaSize;
                sectionEnd = ucast (MediaEndOffset entry) * MediaSize;
                sectionSize = sectionEnd - sectionOffset;
                baseIV = buildBaseIV (CryptoCounter fsHeader);
                single = [\<lparr>sec_Offset = sectionOffset,
                            sec_Size = sectionSize,
                            sec_CryptoType = ucast (CryptoType fsHeader),
                            sec_Padding = 0,
                            sec_CryptoKey = section_key titleKey,
                            sec_CryptoCounter = copy16 baseIV\<rparr>]
            in if CryptoType fsHeader = CryptoTypeBKTR
                  \<and> (case BktrSubsection fsHeader of None \<Rightarrow> False | Some bh \<Rightarrow> BktrSize bh > 0)
               then (case parseBktrSections A r titleKey sectionOffset sectionEnd
                            (BktrSubsection fsHeader) baseIV of
                       Inl e \<Rightarrow> Inl e
                     | Inr bktrSections \<Rightarrow>
                         if length bktrSections > 0 then Inr bktrSections else Inr single)
               else Inr single))"

text \<open>
  The loop over the four section table entries, each with the FS header of the same
  index (the arrays \<open>[4]SectionEntry\<close> and \<open>[4]FsHeader\<close> are lists here).
\<close>

fun planned_sections ::
  "aes_prim \<Rightarrow> bytes \<Rightarrow> bytes option \<Rightarrow> (SectionEntry \<times> FsHeader) list
     \<Rightarrow> failure + NczSectionEntry list" where
  "planned_sections A r titleKey [] = Inr []"
| "planned_sections A r titleKey ((entry, fsHeader) # rest) =
     (case entry_sections A r titleKey entry fsHeader of
        Inl e \<Rightarrow> Inl e
      | Inr secs \<Rightarrow>
          (case planned_sections A r titleKey rest of
             Inl e \<Rightarrow> Inl e
           | Inr others \<Rightarrow> Inr (secs @ others)))"

text \<open>
  \<open>GetEncryptionSections\<close>. \<open>sort.Slice\<close> (Go's \<open>sort\<close>) orders the sections by \<open>Offset\<close>; it
  is not stable, so the order it gives to sections of equal offset is not specified.
  The model sorts by insertion, which keeps their order.
\<close>

definition GetEncryptionSections ::
  "aes_prim \<Rightarrow> bytes \<Rightarrow> NcaHeader \<Rightarrow> failure + NczSectionEntry list" where
  "GetEncryptionSections A r header =
     (case planned_sections A r (TitleKey header) (zip (SectionTables header) (FsHeaders header)) of
        Inl e \<Rightarrow> Inl e
      | Inr sections \<Rightarrow> Inr (sort_key sec_Offset sections))"

section \<open>The block compressor (pkg/fs, \<open>CompressNca\<close> and \<open>compressBlocks\<close>)\<close>

definition NcaFullHeaderSize :: int where
  "NcaFullHeaderSize = 0x4000"

definition DefaultBlockSizeEx :: nat where
  "DefaultBlockSizeEx = 20"

text \<open>Go's \<open>/\<close> on integers truncates towards zero.\<close>

definition go_div :: "int \<Rightarrow> int \<Rightarrow> int" where
  "go_div a b = (if (a < 0) = (b < 0) then \<bar>a\<bar> div \<bar>b\<bar> else - (\<bar>a\<bar> div \<bar>b\<bar>))"

text \<open>
  The block parameters of \<open>CompressNca\<close>:
  \<^verbatim>\<open>blockSize := int64(1) << DefaultBlockSizeEx
  dataSize := totalSize - NcaFullHeaderSize
  blockCount := uint32((dataSize + blockSize - 1) / blockSize)\<close>
  in \<open>int64\<close> arithmetic, the result cut to 32 bits.
\<close>

definition CompressNca_blockSize :: int where
  "CompressNca_blockSize = wrap_int64 (2 ^ DefaultBlockSizeEx)"

definition CompressNca_dataSize :: "int \<Rightarrow> int" where
  "CompressNca_dataSize totalSize = wrap_int64 (totalSize - NcaFullHeaderSize)"

definition CompressNca_blockCount :: "int \<Rightarrow> uint32" where
  "CompressNca_blockCount totalSize =
     word_of_int
       (go_div (wrap_int64 (wrap_int64 (CompressNca_dataSize totalSize + CompressNca_blockSize) - 1))
          CompressNca_blockSize)"

text \<open>A block to process: the \<open>work\<close> struct of \<open>compressBlocks\<close>.\<close>

record work =
  work_index :: nat
  work_offset :: int
  work_size :: int

text \<open>
  The loop that submits the work:
  \<^verbatim>\<open>for i := uint32(0); i < blockCount; i++ {
      offset := NcaFullHeaderSize + int64(i)*blockSize
      size := blockSize
      if offset+size > totalSize { size = totalSize - offset }
      workCh <- work{i, offset, size}
  }\<close>
\<close>

definition block_work :: "int \<Rightarrow> int \<Rightarrow> nat \<Rightarrow> work" where
  "block_work totalSize blockSize i =
     (let offset = wrap_int64 (NcaFullHeaderSize + wrap_int64 (int i * blockSize));
          size = blockSize;
          size = (if wrap_int64 (offset + size) > totalSize then wrap_int64 (totalSize - offset)
                  else size)
      in \<lparr>work_index = i, work_offset = offset, work_size = size\<rparr>)"

definition submitted_work :: "int \<Rightarrow> int \<Rightarrow> uint32 \<Rightarrow> work list" where
  "submitted_work totalSize blockSize blockCount =
     map (block_work totalSize blockSize) [0..<unat blockCount]"

text \<open>
  One iteration of the loop of \<open>decryptChunk\<close>: the part of the chunk inside the section
  is decrypted in place when the section's crypto type is 3 or 4. The slice expression
  \<open>chunk[start-chunkStart : end-chunkStart]\<close> panics when its bounds are out of order
  or beyond the chunk.
\<close>

definition decrypt_section ::
  "aes_prim \<Rightarrow> uint64 \<Rightarrow> bytes \<Rightarrow> NczSectionEntry \<Rightarrow> failure + bytes" where
  "decrypt_section A chunkStart chunk sec =
     (let chunkEnd = chunkStart + of_nat (length chunk);
          secEnd = sec_Offset sec + sec_Size sec
      in if chunkStart \<ge> secEnd \<or> chunkEnd \<le> sec_Offset sec then Inr chunk
         else
           (let start = (if sec_Offset sec > chunkStart then sec_Offset sec else chunkStart);
                end = (if secEnd < chunkEnd then secEnd else chunkEnd);
                lo = unat (start - chunkStart);
                hi = unat (end - chunkStart)
            in if hi < lo \<or> length chunk < hi then Inl PanicSliceBounds
               else if sec_CryptoType sec = 3 \<or> sec_CryptoType sec = 4
               then Inr (write_at chunk lo
                      (ctr_apply A (sec_CryptoKey sec) (sec_CryptoCounter sec) (sint start)
                         (subslice chunk lo hi)))
               else Inr chunk))"

fun decryptChunk_loop ::
  "aes_prim \<Rightarrow> uint64 \<Rightarrow> bytes \<Rightarrow> NczSectionEntry list \<Rightarrow> failure + bytes" where
  "decryptChunk_loop A chunkStart chunk [] = Inr chunk"
| "decryptChunk_loop A chunkStart chunk (sec # sections) =
     (case decrypt_section A chunkStart chunk sec of
        Inl e \<Rightarrow> Inl e
      | Inr chunk' \<Rightarrow> decryptChunk_loop A chunkStart chunk' sections)"

definition decryptChunk ::
  "aes_prim \<Rightarrow> bytes \<Rightarrow> int \<Rightarrow> NczSectionEntry list \<Rightarrow> failure + bytes" where
  "decryptChunk A chunk chunkOffset sections =
     decryptChunk_loop A (word_of_int chunkOffset) chunk sections"

text \<open>
  The worker's steps before compression: the read into \<open>buf[:w.size]\<close> (a panic when
  the size is not within the buffer of \<open>blockSize\<close> bytes), the error when nothing was
  read, and the decryption. The result is the raw (decrypted) block.
\<close>

definition raw_block ::
  "aes_prim \<Rightarrow> bytes \<Rightarrow> int \<Rightarrow> NczSectionEntry list \<Rightarrow> work \<Rightarrow> failure + bytes" where
  "raw_block A r blockSize sections w =
     (if work_size w < 0 \<or> blockSize < work_size w then Inl PanicSliceBounds
      else (case ReadAt r (nat (work_size w)) (work_offset w) of
              (chunk, err) \<Rightarrow>
                if err \<and> length chunk = 0 then Inl ReadError
                else decryptChunk A chunk (work_offset w) sections))"

text \<open>
  The rest of the worker's loop body. The compressor \<open>zstd.Compress(chunk, level)\<close> is the
  zstd library behind \<open>pkg/zstd\<close>: a parameter of the model.
  \<^verbatim>\<open>compressed := github_zstd.Compress(chunk, compressionLevel)
  if len(compressed) < len(chunk) { data = compressed }
  else { data = make([]byte, len(chunk)); copy(data, chunk) }\<close>
\<close>

definition process_block ::
  "aes_prim \<Rightarrow> (bytes \<Rightarrow> int \<Rightarrow> bytes) \<Rightarrow> bytes \<Rightarrow> int \<Rightarrow> NczSectionEntry list \<Rightarrow> int \<Rightarrow> work
     \<Rightarrow> failure + bytes" where
  "process_block A zstd r blockSize sections compressionLevel w =
     (case raw_block A r blockSize sections w of
        Inl e \<Rightarrow> Inl e
      | Inr chunk \<Rightarrow>
          (let compressed = zstd chunk compressionLevel
           in Inr (if length compressed < length chunk then compressed else chunk)))"

text \<open>
  \<open>compressBlocks\<close>. The workers share only the reader and the section list, which they
  read, so \<open>results[i]\<close> is what the loop body computes for block \<open>i\<close> whatever the
  schedule; the model computes the blocks in index order. When a block fails, the
  function returns no results (in the model, the failure of the first such block).
\<close>

fun collect_results :: "(failure + bytes) list \<Rightarrow> failure + bytes list" where
  "collect_results [] = Inr []"
| "collect_results (r # rs) =
     (case r of
        Inl e \<Rightarrow> Inl e
      | Inr data \<Rightarrow> (case collect_results rs of Inl e \<Rightarrow> Inl e | Inr ds \<Rightarrow> Inr (data # ds)))"

definition compressBlocks ::
  "aes_prim \<Rightarrow> (bytes \<Rightarrow> int \<Rightarrow> bytes) \<Rightarrow> bytes \<Rightarrow> int \<Rightarrow> int \<Rightarrow> uint32 \<Rightarrow> NczSectionEntry list \<Rightarrow> int
     \<Rightarrow> failure + bytes list" where
  "compressBlocks A zstd r totalSize blockSize blockCount sections compressionLevel =
     collect_results
       (map (process_block A zstd r blockSize sections compressionLevel)
          (submitted_work totalSize blockSize blockCount))"

section \<open>Auxiliary definitions for the proofs\<close>

text \<open>
  The ECB loop computes the block transformation on each 16-byte block in turn; this is
  its result as a function of the input alone.
\<close>

fun blocks_map :: "(bytes \<Rightarrow> bytes) \<Rightarrow> bytes \<Rightarrow> bytes" where
  "blocks_map f xs = (if xs = [] then [] else f (take 16 xs) @ blocks_map f (drop 16 xs))"

declare blocks_map.simps [simp del]

text \<open>
  Concrete inputs at which the theorems are instantiated: a stand-in for the block cipher
  parameter (adding 1 to every byte, with subtraction as its inverse), the key store
  before any key is loaded (Go's zero values), and a key store holding the four source
  constants and the master key of generation 0.
\<close>

definition shift_cipher :: aes_prim where
  "shift_cipher = \<lparr>aes_encrypt = (\<lambda>k b. map (\<lambda>x. x + 1) b), aes_decrypt = (\<lambda>k b. map (\<lambda>x. x - 1) b)\<rparr>"

definition empty_keystore :: keystore where
  "empty_keystore = \<lparr>keys = Map.empty, keyAreaKeys = (\<lambda>i t. None), titleKeks = (\<lambda>i. None)\<rparr>"

definition sample_keystore :: keystore where
  "sample_keystore =
     empty_keystore\<lparr>keys :=
       [''aes_kek_generation_source'' \<mapsto> replicate 16 1,
        ''aes_key_generation_source'' \<mapsto> replicate 16 2,
        ''titlekek_source'' \<mapsto> replicate 16 3,
        ''key_area_key_application_source'' \<mapsto> replicate 16 4,
        ''master_key_00'' \<mapsto> replicate 16 5]\<rparr>"

text \<open>
  CTR processing of a range cut into pieces, each piece handled by a stream of its own
  that starts at the piece's absolute offset.
\<close>

fun ctr_pieces :: "aes_prim \<Rightarrow> bytes \<Rightarrow> bytes \<Rightarrow> int \<Rightarrow> bytes list \<Rightarrow> bytes" where
  "ctr_pieces A key iv off [] = []"
| "ctr_pieces A key iv off (p # ps) =
     ctr_apply A key iv off p @ ctr_pieces A key iv (off + int (length p)) ps"

text \<open>The number that a byte string denotes, most significant byte first.\<close>

definition be_nat :: "bytes \<Rightarrow> nat" where
  "be_nat bs = foldl (\<lambda>a b. a * 256 + unat b) 0 bs"

text \<open>The \<open>n\<close> low bytes of a number, least significant byte first.\<close>

fun le_enc :: "nat \<Rightarrow> nat \<Rightarrow> bytes" where
  "le_enc 0 v = []"
| "le_enc (Suc n) v = of_nat (v mod 256) # le_enc n (v div 256)"

text \<open>
  A file of 0x4000 zero bytes followed by the bytes 1, 2, 3, and a stand-in for the
  compressor: it keeps the first two bytes of its input.
\<close>

definition sample_file :: bytes where
  "sample_file = replicate 0x4000 0 @ [1, 2, 3]"

definition take2_compressor :: "bytes \<Rightarrow> int \<Rightarrow> bytes" where
  "take2_compressor chunk level = take 2 chunk"

text \<open>
  A second stand-in for the block cipher, whose key stream is zero, so that data read
  through a CTR stream is the data in the file.
\<close>

definition zero_cipher :: aes_prim where
  "zero_cipher = \<lparr>aes_encrypt = (\<lambda>k b. replicate 16 0), aes_decrypt = (\<lambda>k b. replicate 16 0)\<rparr>"

text \<open>The four bytes of a 32-bit value, most significant first.\<close>

definition be32 :: "uint32 \<Rightarrow> bytes" where
  "be32 v = [ucast (drop_bit 24 v), ucast (drop_bit 16 v), ucast (drop_bit 8 v), ucast v]"

text \<open>
  The byte positions that a section covers, and the section that the planner emits for a
  non-zero BKTR entry, the end of the entry, the tail section, and the single section
  of a section table entry, as the claims describe them.
\<close>

definition sec_range :: "NczSectionEntry \<Rightarrow> nat set" where
  "sec_range s = {unat (sec_Offset s)..<unat (sec_Offset s) + unat (sec_Size s)}"

definition bktr_entry_section :: "bytes \<Rightarrow> uint64 \<Rightarrow> bytes \<Rightarrow> BktrSubsectionEntry \<Rightarrow> NczSectionEntry" where
  "bktr_entry_section key sectionOffset baseIV e =
     \<lparr>sec_Offset = sectionOffset + VirtualOffset e,
      sec_Size = entry_Size e,
      sec_CryptoType = 3,
      sec_Padding = 0,
      sec_CryptoKey = key,
      sec_CryptoCounter = take 4 baseIV @ be32 (Ctr e) @ drop 8 baseIV\<rparr>"

definition entry_end :: "uint64 \<Rightarrow> BktrSubsectionEntry \<Rightarrow> uint64" where
  "entry_end sectionOffset e = sectionOffset + VirtualOffset e + entry_Size e"

definition tail_section :: "bytes \<Rightarrow> uint64 \<Rightarrow> uint64 \<Rightarrow> bytes \<Rightarrow> NczSectionEntry" where
  "tail_section key lastEnd sectionEnd baseIV =
     \<lparr>sec_Offset = lastEnd,
      sec_Size = sectionEnd - lastEnd,
      sec_CryptoType = 3,
      sec_Padding = 0,
      sec_CryptoKey = key,
      sec_CryptoCounter = baseIV\<rparr>"

definition single_section :: "bytes option \<Rightarrow> SectionEntry \<Rightarrow> FsHeader \<Rightarrow> NczSectionEntry" where
  "single_section titleKey entry fsHeader =
     \<lparr>sec_Offset = ucast (MediaStartOffset entry) * 0x200,
      sec_Size = ucast (MediaEndOffset entry) * 0x200 - ucast (MediaStartOffset entry) * 0x200,
      sec_CryptoType = ucast (CryptoType fsHeader),
      sec_Padding = 0,
      sec_CryptoKey = section_key titleKey,
      sec_CryptoCounter = buildBaseIV (CryptoCounter fsHeader)\<rparr>"

text \<open>The non-zero entries of the buckets, in order.\<close>

definition nonzero_entries :: "BktrBucket list \<Rightarrow> BktrSubsectionEntry list" where
  "nonzero_entries buckets = filter (\<lambda>e. entry_Size e \<noteq> 0) (concat (map Entries buckets))"


text \<open>
  Sample inputs for the planner: a section table entry for the media units 0x40 to 0x80
  (the bytes 0x8000 to 0x10000), a BKTR FS header whose subsection index starts 0x3000
  bytes into the section, a 16-byte title key, and three decrypted indexes. The first
  has two buckets of one entry each, the second bucket's entry lying before the first
  bucket's; the second has a valid first bucket and a second bucket that declares
  0x10000 entries; the third declares 200 buckets.
\<close>

definition sample_entry :: SectionEntry where
  "sample_entry = \<lparr>MediaStartOffset = 0x40, MediaEndOffset = 0x80\<rparr>"

definition sample_bktr :: "uint64 \<Rightarrow> BktrHeader" where
  "sample_bktr n = \<lparr>BktrOffset = 0x3000, BktrSize = n\<rparr>"

definition sample_fs :: "uint64 \<Rightarrow> FsHeader" where
  "sample_fs n =
     \<lparr>CryptoType = 4, CryptoCounter = [1, 2, 3, 4, 5, 6, 7, 8],
      BktrSubsection = Some (sample_bktr n)\<rparr>"

definition sample_iv :: bytes where
  "sample_iv = [8, 7, 6, 5, 4, 3, 2, 1, 0, 0, 0, 0, 0, 0, 0, 0]"

definition sample_key :: bytes where
  "sample_key = replicate 16 1"

definition index_two_buckets :: bytes where
  "index_two_buckets =
     [0, 0, 0, 0, 2, 0, 0, 0, 0, 0, 0, 0, 0, 0, 0, 0] @ replicate 0x3FF0 0
     @ [0, 0, 0, 0, 1, 0, 0, 0, 0, 0x30, 0, 0, 0, 0, 0, 0,
        0, 0x10, 0, 0, 0, 0, 0, 0, 0, 0, 0, 0, 7, 0, 0, 0]
     @ [0, 0, 0, 0, 1, 0, 0, 0, 0, 0x10, 0, 0, 0, 0, 0, 0,
        0, 0, 0, 0, 0, 0, 0, 0, 0, 0, 0, 0, 9, 0, 0, 0]"

definition index_late_violation :: bytes where
  "index_late_violation =
     [0, 0, 0, 0, 2, 0, 0, 0, 0, 0, 0, 0, 0, 0, 0, 0] @ replicate 0x3FF0 0
     @ [0, 0, 0, 0, 1, 0, 0, 0, 0, 0x30, 0, 0, 0, 0, 0, 0,
        0, 0, 0, 0, 0, 0, 0, 0, 0, 0, 0, 0, 7, 0, 0, 0]
     @ [0, 0, 0, 0, 0, 0, 1, 0, 0, 0x40, 0, 0, 0, 0, 0, 0]"

definition index_200_buckets :: bytes where
  "index_200_buckets = [0, 0, 0, 0, 200, 0, 0, 0, 0, 0, 0, 0, 0, 0, 0, 0]"

text \<open>The file that holds an index at the position 0xB000, after zero bytes.\<close>

definition file_with_index :: "bytes \<Rightarrow> bytes" where
  "file_with_index index = replicate 0xB000 0 @ index"

text \<open>
  The vocabulary of the claim about the sorted section list. Offsets and sizes are read
  as natural numbers, so that a section's end is not cut to 64 bits. Two sections do not
  overlap when one ends where or before the other starts; a list is pairwise
  non-overlapping when this holds for the sections at any two positions of it.
\<close>

definition sec_end :: "NczSectionEntry \<Rightarrow> nat" where
  "sec_end s = unat (sec_Offset s) + unat (sec_Size s)"

definition non_overlapping :: "NczSectionEntry \<Rightarrow> NczSectionEntry \<Rightarrow> bool" where
  "non_overlapping s t \<longleftrightarrow> sec_end s \<le> unat (sec_Offset t) \<or> sec_end t \<le> unat (sec_Offset s)"

definition pairwise_non_overlapping :: "NczSectionEntry list \<Rightarrow> bool" where
  "pairwise_non_overlapping ss = sorted_wrt non_overlapping ss"

text \<open>
  A section table entry is vacant when both its media offsets are 0; its range is
  \<open>[media_start * 512, media_end * 512)\<close>; a section lies within the entry when it starts
  and ends inside that range; the sections emitted for an entry cover its range when
  the union of the byte positions they hold is the entry's range.
\<close>

definition vacant :: "SectionEntry \<Rightarrow> bool" where
  "vacant e \<longleftrightarrow> MediaStartOffset e = 0 \<and> MediaEndOffset e = 0"

definition entry_start :: "SectionEntry \<Rightarrow> nat" where
  "entry_start e = unat (MediaStartOffset e) * 512"

definition entry_stop :: "SectionEntry \<Rightarrow> nat" where
  "entry_stop e = unat (MediaEndOffset e) * 512"

definition within_entry :: "SectionEntry \<Rightarrow> NczSectionEntry \<Rightarrow> bool" where
  "within_entry e s \<longleftrightarrow> entry_start e \<le> unat (sec_Offset s) \<and> sec_end s \<le> entry_stop e"

definition covers :: "SectionEntry \<Rightarrow> NczSectionEntry list \<Rightarrow> bool" where
  "covers e ss \<longleftrightarrow> (\<Union>s \<in> set ss. sec_range s) = {entry_start e..<entry_stop e}"

text \<open>
  The condition under which \<open>GetEncryptionSections\<close> does not try the BKTR fan-out for an
  entry: the crypto type is not BKTR, or there is no subsection header, or its size is 0.
\<close>

definition planned_single :: "FsHeader \<Rightarrow> bool" where
  "planned_single fs =
     (if CryptoType fs = CryptoTypeBKTR
      then (case BktrSubsection fs of None \<Rightarrow> True | Some bh \<Rightarrow> BktrSize bh = 0)
      else True)"

text \<open>
  The BKTR entries over which the planner fans a section table entry out: the entries of
  non-zero size of the buckets that the parser returns, when the fan-out is tried and
  the parser returns at least one bucket. In every other case in which the planner goes
  on (the fan-out is not tried, or the parser returns an error or no bucket) it emits
  the single section of the entry.
\<close>

definition fan_out_entries ::
  "aes_prim \<Rightarrow> bytes \<Rightarrow> bytes option \<Rightarrow> SectionEntry \<Rightarrow> FsHeader
     \<Rightarrow> BktrSubsectionEntry list option" where
  "fan_out_entries A r titleKey e fs =
     (if planned_single fs then None
      else (case ParseBktrSubsectionBuckets A r
                   (sint (ucast (MediaStartOffset e) * MediaSize :: uint64))
                   (BktrSubsection fs) titleKey (buildBaseIV (CryptoCounter fs)) of
              Inl err \<Rightarrow> None
            | Inr buckets \<Rightarrow> if buckets = [] then None else Some (nonzero_entries buckets)))"

text \<open>
  Conditions on the BKTR entries of an index, with the virtual offsets and sizes read as
  natural numbers: every entry ends inside the section; the sum of the section's start
  and an entry's end fits 64 bits; the entries at any two positions do not overlap; and
  the entries leave no gap between the virtual offset 0 and the greatest end among
  them.
\<close>

definition virtual_end :: "BktrSubsectionEntry \<Rightarrow> nat" where
  "virtual_end x = unat (VirtualOffset x) + unat (entry_Size x)"

definition entries_inside :: "SectionEntry \<Rightarrow> BktrSubsectionEntry list \<Rightarrow> bool" where
  "entries_inside e nz = list_all (\<lambda>x. entry_start e + virtual_end x \<le> entry_stop e) nz"

definition entries_no_wrap :: "SectionEntry \<Rightarrow> BktrSubsectionEntry list \<Rightarrow> bool" where
  "entries_no_wrap e nz = list_all (\<lambda>x. entry_start e + virtual_end x < 2 ^ 64) nz"

definition entries_apart :: "BktrSubsectionEntry list \<Rightarrow> bool" where
  "entries_apart nz =
     sorted_wrt (\<lambda>a b. virtual_end a \<le> unat (VirtualOffset b)
                   \<or> virtual_end b \<le> unat (VirtualOffset a)) nz"

definition entries_gapless :: "BktrSubsectionEntry list \<Rightarrow> bool" where
  "entries_gapless nz \<longleftrightarrow>
     (\<Union>x \<in> set nz. {unat (VirtualOffset x)..<virtual_end x})
       = {0..<Max (virtual_end ` set nz)}"

text \<open>
  A well-formed header: the non-vacant section table entries have pairwise disjoint
  ranges, each with \<open>media_start < media_end\<close>, and where the planner fans an entry
  out, the index has an entry of non-zero size, and its entries of non-zero size end
  inside the section and do not overlap.
\<close>

definition entries_disjoint :: "(SectionEntry \<times> FsHeader) list \<Rightarrow> bool" where
  "entries_disjoint zs =
     sorted_wrt (\<lambda>x y. vacant (fst x) \<or> vacant (fst y)
                   \<or> entry_stop (fst x) \<le> entry_start (fst y)
                   \<or> entry_stop (fst y) \<le> entry_start (fst x)) zs"

definition entry_well_formed ::
  "aes_prim \<Rightarrow> bytes \<Rightarrow> bytes option \<Rightarrow> SectionEntry \<Rightarrow> FsHeader \<Rightarrow> bool" where
  "entry_well_formed A r titleKey e fs \<longleftrightarrow>
     MediaStartOffset e < MediaEndOffset e
     \<and> (case fan_out_entries A r titleKey e fs of
          None \<Rightarrow> True
        | Some nz \<Rightarrow> nz \<noteq> [] \<and> entries_inside e nz \<and> entries_apart nz)"

definition header_well_formed :: "aes_prim \<Rightarrow> bytes \<Rightarrow> NcaHeader \<Rightarrow> bool" where
  "header_well_formed A r h \<longleftrightarrow>
     entries_disjoint (zip (SectionTables h) (FsHeaders h))
     \<and> list_all (\<lambda>z. vacant (fst z) \<or> entry_well_formed A r (TitleKey h) (fst z) (snd z))
         (zip (SectionTables h) (FsHeaders h))"

text \<open>
  The sections emitted for an entry are non-empty, inside the entry's range and
  pairwise non-overlapping.
\<close>

definition entry_ok :: "aes_prim \<Rightarrow> bytes \<Rightarrow> bytes option \<Rightarrow> SectionEntry \<Rightarrow> FsHeader \<Rightarrow> bool" where
  "entry_ok A r titleKey e fs =
     (case entry_sections A r titleKey e fs of
        Inr ss \<Rightarrow> list_all (\<lambda>s. sec_Size s \<noteq> 0 \<and> within_entry e s) ss
                  \<and> pairwise_non_overlapping ss
      | Inl x \<Rightarrow> False)"

text \<open>
  Sample headers: a CTR FS header; section table entries for the media units 0x80 to
  0xC0, for none, for 0x40 to 0x40 and for 0x80 to 0x40; an NCA header with given
  section table and FS headers; a decrypted BKTR index of one bucket with two entries,
  contiguous from the virtual offset 0 and ending at 0x3000; and one of two buckets
  whose entries, at the virtual offsets 0x1000 to 0x3000 and 0x2000 to 0x3000, overlap
  and leave the first 0x1000 bytes out.
\<close>

definition ctr_fs :: FsHeader where
  "ctr_fs = \<lparr>CryptoType = 3, CryptoCounter = [1, 2, 3, 4, 5, 6, 7, 8], BktrSubsection = None\<rparr>"

definition vacant_entry :: SectionEntry where
  "vacant_entry = \<lparr>MediaStartOffset = 0, MediaEndOffset = 0\<rparr>"

definition second_entry :: SectionEntry where
  "second_entry = \<lparr>MediaStartOffset = 0x80, MediaEndOffset = 0xC0\<rparr>"

definition empty_entry :: SectionEntry where
  "empty_entry = \<lparr>MediaStartOffset = 0x40, MediaEndOffset = 0x40\<rparr>"

definition reversed_entry :: SectionEntry where
  "reversed_entry = \<lparr>MediaStartOffset = 0x80, MediaEndOffset = 0x40\<rparr>"

definition sample_header :: "SectionEntry list \<Rightarrow> FsHeader list \<Rightarrow> NcaHeader" where
  "sample_header entries fsHeaders =
     \<lparr>ContentType = 0, KeyGeneration = 1, KeyGeneration2 = 1, SectionTables = entries,
      KeyArea = replicate 64 0, TitleKey = Some sample_key, FsHeaders = fsHeaders\<rparr>"

definition index_contiguous :: bytes where
  "index_contiguous =
     [0, 0, 0, 0, 1, 0, 0, 0, 0, 0, 0, 0, 0, 0, 0, 0] @ replicate 0x3FF0 0
     @ [0, 0, 0, 0, 2, 0, 0, 0, 0, 0x30, 0, 0, 0, 0, 0, 0,
        0, 0, 0, 0, 0, 0, 0, 0, 0, 0, 0, 0, 7, 0, 0, 0,
        0, 0x10, 0, 0, 0, 0, 0, 0, 0, 0, 0, 0, 9, 0, 0, 0]"

definition index_gap_overlap :: bytes where
  "index_gap_overlap =
     [0, 0, 0, 0, 2, 0, 0, 0, 0, 0, 0, 0, 0, 0, 0, 0] @ replicate 0x3FF0 0
     @ [0, 0, 0, 0, 1, 0, 0, 0, 0, 0x30, 0, 0, 0, 0, 0, 0,
        0, 0x10, 0, 0, 0, 0, 0, 0, 0, 0, 0, 0, 7, 0, 0, 0]
     @ [0, 0, 0, 0, 1, 0, 0, 0, 0, 0x30, 0, 0, 0, 0, 0, 0,
        0, 0x20, 0, 0, 0, 0, 0, 0, 0, 0, 0, 0, 9, 0, 0, 0]"

text \<open>
  The key lengths that \<open>aes.NewCipher\<close> accepts, and a key store like the sample one whose
  master key of generation 0 has 15 bytes.
\<close>

definition aes_key_length :: "nat \<Rightarrow> bool" where
  "aes_key_length n \<longleftrightarrow> n = 16 \<or> n = 24 \<or> n = 32"

definition short_keystore :: keystore where
  "short_keystore =
     empty_keystore\<lparr>keys :=
       [''aes_kek_generation_source'' \<mapsto> replicate 16 1,
        ''aes_key_generation_source'' \<mapsto> replicate 16 2,
        ''titlekek_source'' \<mapsto> replicate 16 3,
        ''key_area_key_application_source'' \<mapsto> replicate 16 4,
        ''master_key_00'' \<mapsto> replicate 15 5]\<rparr>"










section \<open>Results\<close>

subsection \<open>The effective key generation\<close>

lemma headerKeyGen_max:
  "headerKeyGen kg kg2 = max (max (uint kg) (uint kg2) - 1) 0"
  by (auto simp: headerKeyGen_def Let_def max_def word_less_def word_le_def)

lemma ticketKeyGen_max:
  "ticketKeyGen h = max (max (uint (KeyGeneration h)) (uint (KeyGeneration2 h)) - 1) 0"
  by (auto simp: ticketKeyGen_def Let_def max_def word_less_def word_le_def)


subsection \<open>AES-ECB\<close>

lemma ecb_loop_data: "ecb_data (ecb_loop f i s) = ecb_data s"
  by (induction f i s rule: ecb_loop.induct) (subst ecb_loop.simps, simp)

lemma ecb_loop_out:
  "i \<le> length (ecb_data s) \<Longrightarrow> 16 dvd (length (ecb_data s) - i) \<Longrightarrow>
   length (ecb_out s) = length (ecb_data s) \<Longrightarrow> (\<forall>b. length b = 16 \<longrightarrow> length (f b) = 16) \<Longrightarrow>
   ecb_out (ecb_loop f i s) = take i (ecb_out s) @ blocks_map f (drop i (ecb_data s))"
proof (induction f i s rule: ecb_loop.induct)
  case (1 f i s)
  show ?case
  proof (cases "i < length (ecb_data s)")
    case False
    with "1.prems" show ?thesis
      by (subst ecb_loop.simps) (simp add: blocks_map.simps)
  next
    case True
    let ?d = "ecb_data s"
    let ?blk = "f (subslice ?d i (i + 16))"
    let ?s' = "s\<lparr>ecb_out := write_at (ecb_out s) i ?blk\<rparr>"
    from True have "0 < length ?d - i" by simp
    with "1.prems"(2) have "16 \<le> length ?d - i" by (rule dvd_imp_le)
    hence ge: "i + 16 \<le> length ?d" by simp
    have len_sl: "length (subslice ?d i (i + 16)) = 16"
      using ge by (simp add: subslice_def)
    have len_blk: "length ?blk = 16"
      using "1.prems"(4) len_sl by blast
    have dvd': "16 dvd (length ?d - (i + 16))"
      using dvd_diff_nat[OF "1.prems"(2) dvd_refl] by (simp add: add.commute)
    have "ecb_out (ecb_loop f (i + 16) ?s') =
      take (i + 16) (ecb_out ?s') @ blocks_map f (drop (i + 16) (ecb_data ?s'))"
      using "1.IH"[OF True] ge dvd' "1.prems"(3,4) len_blk
      by (simp add: write_at_def)
    also have "take (i + 16) (ecb_out ?s') = take i (ecb_out s) @ ?blk"
      using len_blk "1.prems"(3) ge by (simp add: write_at_def)
    also have "blocks_map f (drop i ?d) = ?blk @ blocks_map f (drop (i + 16) ?d)"
      using True by (subst blocks_map.simps) (simp add: subslice_def add.commute)
    hence "(take i (ecb_out s) @ ?blk) @ blocks_map f (drop (i + 16) (ecb_data ?s')) =
       take i (ecb_out s) @ blocks_map f (drop i ?d)" by simp
    finally show ?thesis using True by (subst ecb_loop.simps) simp
  qed
qed

lemma ecb_run_out:
  "length data mod 16 = 0 \<Longrightarrow> (\<forall>b. length b = 16 \<longrightarrow> length (f b) = 16) \<Longrightarrow>
   ecb_out (ecb_run f data) = blocks_map f data"
  unfolding ecb_run_def by (subst ecb_loop_out) auto

lemma length_blocks_map:
  "16 dvd length xs \<Longrightarrow> (\<forall>b. length b = 16 \<longrightarrow> length (f b) = 16) \<Longrightarrow>
   length (blocks_map f xs) = length xs"
proof (induction f xs rule: blocks_map.induct)
  case (1 f xs)
  show ?case
  proof (cases "xs = []")
    case True then show ?thesis by (simp add: blocks_map.simps)
  next
    case False
    with "1.prems"(1) have ge: "16 \<le> length xs" by (simp add: dvd_imp_le)
    hence "16 dvd length (drop 16 xs)" using "1.prems"(1) by (simp add: dvd_diff_nat)
    with "1.IH"[OF False] "1.prems"(2) have "length (blocks_map f (drop 16 xs)) = length xs - 16" by simp
    moreover have "length (f (take 16 xs)) = 16" using "1.prems"(2) ge by simp
    ultimately show ?thesis using False ge by (subst blocks_map.simps) simp
  qed
qed

lemma blocks_map_inverse:
  "16 dvd length xs \<Longrightarrow> (\<forall>b. length b = 16 \<longrightarrow> length (f b) = 16) \<Longrightarrow>
   (\<forall>b. length b = 16 \<longrightarrow> g (f b) = b) \<Longrightarrow>
   blocks_map g (blocks_map f xs) = xs"
proof (induction f xs rule: blocks_map.induct)
  case (1 f xs)
  show ?case
  proof (cases "xs = []")
    case True then show ?thesis by (simp add: blocks_map.simps)
  next
    case False
    with "1.prems"(1) have ge: "16 \<le> length xs" by (simp add: dvd_imp_le)
    hence d: "16 dvd length (drop 16 xs)" using "1.prems"(1) by (simp add: dvd_diff_nat)
    have l: "length (f (take 16 xs)) = 16" using "1.prems"(2) ge by simp
    have ih: "blocks_map g (blocks_map f (drop 16 xs)) = drop 16 xs"
      using "1.IH"[OF False d] "1.prems"(2,3) by simp
    have e: "blocks_map f xs = f (take 16 xs) @ blocks_map f (drop 16 xs)"
      using False by (subst blocks_map.simps) simp
    have "blocks_map g (blocks_map f xs) = g (f (take 16 xs)) @ blocks_map g (blocks_map f (drop 16 xs))"
      unfolding e using l by (subst blocks_map.simps) auto
    also have "\<dots> = take 16 xs @ drop 16 xs" using ih "1.prems"(3) ge by simp
    finally show ?thesis by simp
  qed
qed

lemma shift_cipher_sized: "aes_block_sized shift_cipher"
  by (simp add: aes_block_sized_def shift_cipher_def)

lemma shift_cipher_inverse: "aes_inverse shift_cipher"
  by (simp add: aes_inverse_def shift_cipher_def comp_def)

lemma ECB_not_KeyNotDerived: "ECBDecrypt A d k \<noteq> Inl KeyNotDerived"
  by (simp add: ECBDecrypt_def aes_NewCipher_def split: sum.splits)

lemma ECBDecrypt_ok:
  assumes "aes_block_sized A" and "aes_NewCipher key = Inr block" and "length data mod 16 = 0"
  shows "ECBDecrypt A data key = Inr (blocks_map (aes_decrypt A key) data)"
proof -
  have blk: "block = key" using assms(2) by (auto simp: aes_NewCipher_def split: if_splits)
  have sd: "\<forall>b. length b = 16 \<longrightarrow> length (aes_decrypt A key b) = 16"
    using assms(1) by (auto simp: aes_block_sized_def)
  show ?thesis
    unfolding ECBDecrypt_def using assms(2,3) blk ecb_run_out[OF assms(3) sd] by simp
qed

lemma ECBEncrypt_ok:
  assumes "aes_block_sized A" and "aes_NewCipher key = Inr block" and "length data mod 16 = 0"
  shows "ECBEncrypt A data key = Inr (blocks_map (aes_encrypt A key) data)"
proof -
  have blk: "block = key" using assms(2) by (auto simp: aes_NewCipher_def split: if_splits)
  have se: "\<forall>b. length b = 16 \<longrightarrow> length (aes_encrypt A key b) = 16"
    using assms(1) by (auto simp: aes_block_sized_def)
  show ?thesis
    unfolding ECBEncrypt_def using assms(2,3) blk ecb_run_out[OF assms(3) se] by simp
qed

lemma ECB_size_error:
  assumes "aes_NewCipher key = Inr block" and "length data mod 16 \<noteq> 0"
  shows "ECBDecrypt A data key = Inl CryptoSizeError" and "ECBEncrypt A data key = Inl CryptoSizeError"
  using assms by (simp_all add: ECBDecrypt_def ECBEncrypt_def)

text \<open>
  C10. For a key that \<open>aes.NewCipher\<close> accepts and data whose length is a multiple of 16,
  \<open>ECBEncrypt\<close> of \<open>ECBDecrypt\<close> and \<open>ECBDecrypt\<close> of \<open>ECBEncrypt\<close> give the data back, and
  each result has the length of its input; for any other length both return the size
  error; and the loop leaves the caller's buffer \<open>data\<close> as it was (it writes only to
  the buffer \<open>out\<close> it allocated). The block cipher is assumed to map 16-byte blocks to
  16-byte blocks, with decryption the inverse of encryption under the same key.
\<close>

theorem C10_ecb_round_trip:
  assumes "aes_block_sized A" and "aes_inverse A" and "aes_NewCipher key = Inr block"
  shows "(length data mod 16 = 0 \<longrightarrow>
           (case ECBDecrypt A data key of
              Inr p \<Rightarrow> ECBEncrypt A p key = Inr data \<and> length p = length data
            | Inl e \<Rightarrow> False)
         \<and> (case ECBEncrypt A data key of
              Inr c \<Rightarrow> ECBDecrypt A c key = Inr data \<and> length c = length data
            | Inl e \<Rightarrow> False))
       \<and> (length data mod 16 \<noteq> 0 \<longrightarrow>
           ECBDecrypt A data key = Inl CryptoSizeError \<and> ECBEncrypt A data key = Inl CryptoSizeError)
       \<and> ecb_data (ecb_run (aes_decrypt A block) data) = data
       \<and> ecb_data (ecb_run (aes_encrypt A block) data) = data"
proof -
  have sd: "\<forall>b. length b = 16 \<longrightarrow> length (aes_decrypt A key b) = 16"
    and se: "\<forall>b. length b = 16 \<longrightarrow> length (aes_encrypt A key b) = 16"
    using assms(1) by (auto simp: aes_block_sized_def)
  have ide: "\<forall>b. length b = 16 \<longrightarrow> aes_encrypt A key (aes_decrypt A key b) = b"
    and idd: "\<forall>b. length b = 16 \<longrightarrow> aes_decrypt A key (aes_encrypt A key b) = b"
    using assms(2) by (auto simp: aes_inverse_def)
  have rt: "(case ECBDecrypt A data key of
              Inr p \<Rightarrow> ECBEncrypt A p key = Inr data \<and> length p = length data
            | Inl e \<Rightarrow> False)
         \<and> (case ECBEncrypt A data key of
              Inr c \<Rightarrow> ECBDecrypt A c key = Inr data \<and> length c = length data
            | Inl e \<Rightarrow> False)"
    if m: "length data mod 16 = 0"
  proof -
    have dv: "16 dvd length data" using m by (simp add: dvd_eq_mod_eq_0)
    let ?p = "blocks_map (aes_decrypt A key) data"
    let ?c = "blocks_map (aes_encrypt A key) data"
    have ld: "length ?p = length data" using length_blocks_map[OF dv sd] .
    have le: "length ?c = length data" using length_blocks_map[OF dv se] .
    have mp: "length ?p mod 16 = 0" and mc: "length ?c mod 16 = 0" using m ld le by simp_all
    have 1: "ECBDecrypt A data key = Inr ?p" by (rule ECBDecrypt_ok[OF assms(1,3) m])
    have 2: "ECBEncrypt A data key = Inr ?c" by (rule ECBEncrypt_ok[OF assms(1,3) m])
    have 3: "ECBEncrypt A ?p key = Inr data"
      using ECBEncrypt_ok[OF assms(1,3) mp] blocks_map_inverse[OF dv sd ide] by simp
    have 4: "ECBDecrypt A ?c key = Inr data"
      using ECBDecrypt_ok[OF assms(1,3) mc] blocks_map_inverse[OF dv se idd] by simp
    show ?thesis by (simp add: 1 2 3 4 ld le)
  qed
  have d1: "ecb_data (ecb_run (aes_decrypt A block) data) = data"
    and d2: "ecb_data (ecb_run (aes_encrypt A block) data) = data"
    by (simp_all add: ecb_run_def ecb_loop_data)
  from rt ECB_size_error[OF assms(3)] d1 d2 show ?thesis by blast
qed

text \<open>The theorem at the stand-in cipher, a 16-byte key, and data of 32 and of 17 bytes.\<close>

theorem C10_witness:
  "aes_NewCipher (replicate 16 7) = Inr (replicate 16 7)
   \<and> length (replicate 32 (1::byte)) mod 16 = 0
   \<and> (case ECBDecrypt shift_cipher (replicate 32 1) (replicate 16 7) of
        Inr p \<Rightarrow> ECBEncrypt shift_cipher p (replicate 16 7) = Inr (replicate 32 1)
                 \<and> length p = length (replicate 32 (1::byte))
      | Inl e \<Rightarrow> False)
   \<and> length (replicate 17 (1::byte)) mod 16 \<noteq> 0
   \<and> ECBDecrypt shift_cipher (replicate 17 1) (replicate 16 7) = Inl CryptoSizeError"
proof -
  have k: "aes_NewCipher (replicate 16 7) = Inr (replicate 16 7)"
    by (simp add: aes_NewCipher_def)
  show ?thesis
    using C10_ecb_round_trip[OF shift_cipher_sized shift_cipher_inverse k, of "replicate 32 1"]
      C10_ecb_round_trip[OF shift_cipher_sized shift_cipher_inverse k, of "replicate 17 1"] k
    by simp
qed

subsection \<open>Key generations outside the derived arrays\<close>

lemma headerKeyGen_bound: "headerKeyGen kg kg2 \<le> 254"
proof -
  have "uint kg < 256" "uint kg2 < 256"
    using uint_bounded[of kg] uint_bounded[of kg2] by simp_all
  then show ?thesis by (simp add: headerKeyGen_max)
qed

text \<open>
  C9. A key generation above 31 makes \<open>UnwrapAesWrappedTitleKey\<close> and \<open>DecryptTitleKey\<close>
  index the 32-element arrays out of range, which is a panic and not the
  "not derived" error; that error is returned exactly for a generation in 0..31 whose
  derived key is absent. Headers reach such generations: the key generation of a header
  is at most 254, it is 254 for the bytes 255 and 0, and a header whose larger
  generation byte exceeds 32 makes the header parser and the ticket path panic.
\<close>

theorem C9_key_generation_out_of_range:
  "(31 < keyGen \<longrightarrow>
      UnwrapAesWrappedTitleKey A ks w keyGen = Inl PanicIndexOutOfRange
      \<and> DecryptTitleKey A ks w keyGen = Inl PanicIndexOutOfRange)
   \<and> (UnwrapAesWrappedTitleKey A ks w keyGen = Inl KeyNotDerived
        \<longleftrightarrow> 0 \<le> keyGen \<and> keyGen < 32 \<and> keyAreaKeys ks (nat keyGen) 0 = None)
   \<and> (DecryptTitleKey A ks w keyGen = Inl KeyNotDerived
        \<longleftrightarrow> 0 \<le> keyGen \<and> keyGen < 32 \<and> titleKeks ks (nat keyGen) = None)
   \<and> (32 < max (uint (KeyGeneration h)) (uint (KeyGeneration2 h)) \<longrightarrow>
        ParseNcaHeader_titleKey A ks h = Inl PanicIndexOutOfRange
        \<and> processNsp_titleKey A ks w h = Inl PanicIndexOutOfRange)
   \<and> headerKeyGen kg kg2 \<le> 254
   \<and> headerKeyGen 255 0 = 254"
  using ECB_not_KeyNotDerived[of A w] headerKeyGen_bound[of kg kg2]
  by (auto simp: UnwrapAesWrappedTitleKey_def DecryptTitleKey_def ParseNcaHeader_titleKey_def
      processNsp_titleKey_def headerKeyGen_max ticketKeyGen_max Let_def is_panic_def
      split: option.splits)

text \<open>The theorem at the generations 254 and 31, with no key derived.\<close>

theorem C9_witness:
  "(31::int) < 254
   \<and> UnwrapAesWrappedTitleKey shift_cipher empty_keystore (replicate 16 0) 254 = Inl PanicIndexOutOfRange
   \<and> DecryptTitleKey shift_cipher empty_keystore (replicate 16 0) 254 = Inl PanicIndexOutOfRange
   \<and> UnwrapAesWrappedTitleKey shift_cipher empty_keystore (replicate 16 0) 31 = Inl KeyNotDerived
   \<and> ParseNcaHeader_titleKey shift_cipher empty_keystore
        \<lparr>ContentType = 0, KeyGeneration = 0xFF, KeyGeneration2 = 0, SectionTables = [],
         KeyArea = replicate 64 0, TitleKey = None, FsHeaders = []\<rparr> = Inl PanicIndexOutOfRange"
  using C9_key_generation_out_of_range[of 254 shift_cipher empty_keystore "replicate 16 0"
      "\<lparr>ContentType = 0, KeyGeneration = 0xFF, KeyGeneration2 = 0, SectionTables = [],
         KeyArea = replicate 64 0, TitleKey = None, FsHeaders = []\<rparr>"]
    C9_key_generation_out_of_range[of 31 shift_cipher empty_keystore "replicate 16 0"]
  by (simp add: empty_keystore_def)

subsection \<open>Key derivation\<close>

lemma derive_kak_keys [simp]: "keys (derive_kak A kg yg srcs mk i ks t) = keys ks"
  and derive_kak_titleKeks [simp]: "titleKeks (derive_kak A kg yg srcs mk i ks t) = titleKeks ks"
  by (simp_all add: derive_kak_def split: option.splits sum.splits)

lemma derive_kak_other_gen:
  "j \<noteq> i \<Longrightarrow> keyAreaKeys (derive_kak A kg yg srcs mk i ks t) j = keyAreaKeys ks j"
  by (simp add: derive_kak_def split: option.splits sum.splits)

lemma derive_kak_other_type:
  "t' \<noteq> t \<Longrightarrow> keyAreaKeys (derive_kak A kg yg srcs mk i ks t) i t' = keyAreaKeys ks i t'"
  by (simp add: derive_kak_def split: option.splits sum.splits)

lemma fold_kak_keys [simp]:
  "keys (foldl (derive_kak A kg yg srcs mk i) ks ts) = keys ks"
  and fold_kak_titleKeks [simp]:
  "titleKeks (foldl (derive_kak A kg yg srcs mk i) ks ts) = titleKeks ks"
  by (induction ts arbitrary: ks) simp_all

lemma fold_kak_other_gen:
  "j \<noteq> i \<Longrightarrow> keyAreaKeys (foldl (derive_kak A kg yg srcs mk i) ks ts) j = keyAreaKeys ks j"
  by (induction ts arbitrary: ks) (simp_all add: derive_kak_other_gen)

lemma fold_kak_other_type:
  "t' \<notin> set ts \<Longrightarrow>
   keyAreaKeys (foldl (derive_kak A kg yg srcs mk i) ks ts) i t' = keyAreaKeys ks i t'"
  by (induction ts arbitrary: ks) (simp_all add: derive_kak_other_type)

lemma derive_generation_keys [simp]:
  "keys (derive_generation A kg yg tks srcs ks i) = keys ks"
  by (simp add: derive_generation_def Let_def split: option.splits sum.splits)

lemma derive_generation_other:
  "j \<noteq> i \<Longrightarrow> titleKeks (derive_generation A kg yg tks srcs ks i) j = titleKeks ks j"
  "j \<noteq> i \<Longrightarrow> keyAreaKeys (derive_generation A kg yg tks srcs ks i) j = keyAreaKeys ks j"
  by (simp_all add: derive_generation_def Let_def fold_kak_other_gen split: option.splits sum.splits)

lemma derive_generation_absent:
  "keys ks (masterKeyName i) = None \<Longrightarrow> derive_generation A kg yg tks srcs ks i = ks"
  by (simp add: derive_generation_def)

lemma derive_generation_titleKek:
  "keys ks (masterKeyName i) = Some mk \<Longrightarrow>
   titleKeks (derive_generation A kg yg (Some src) srcs ks i) i =
     (case ECBDecrypt A src mk of Inr tk \<Rightarrow> Some tk | Inl e \<Rightarrow> titleKeks ks i)"
  by (simp add: derive_generation_def Let_def split: sum.splits)

lemma upt3: "[0..<3] = [0, Suc 0, Suc (Suc 0)]"
  by (simp add: upt_rec numeral_3_eq_3)

lemma derive_generation_kak:
  "keys ks (masterKeyName i) = Some mk \<Longrightarrow>
   keyAreaKeys (derive_generation A kg yg tks (Some src # rest) ks i) i 0 =
     (case GenerateKek A src mk kg (Some yg) of Inr kak \<Rightarrow> Some kak | Inl e \<Rightarrow> keyAreaKeys ks i 0)"
proof -
  assume mk: "keys ks (masterKeyName i) = Some mk"
  define ks1 where "ks1 =
     (case tks of None \<Rightarrow> ks
      | Some s \<Rightarrow> (case ECBDecrypt A s mk of
           Inr tk \<Rightarrow> ks\<lparr>titleKeks := (titleKeks ks)(i := Some tk)\<rparr> | Inl e \<Rightarrow> ks))"
  have k1: "keyAreaKeys ks1 = keyAreaKeys ks"
    by (simp add: ks1_def split: option.splits sum.splits)
  let ?f = "derive_kak A kg yg (Some src # rest) mk i"
  have "keyAreaKeys (derive_generation A kg yg tks (Some src # rest) ks i) i 0
        = keyAreaKeys (foldl ?f (?f ks1 0) [Suc 0, Suc (Suc 0)]) i 0"
    using mk by (simp add: derive_generation_def Let_def ks1_def upt3)
  also have "\<dots> = keyAreaKeys (?f ks1 0) i 0"
    by (rule fold_kak_other_type) simp
  also have "\<dots> = (case GenerateKek A src mk kg (Some yg) of
                      Inr kak \<Rightarrow> Some kak | Inl e \<Rightarrow> keyAreaKeys ks i 0)"
    by (simp add: derive_kak_def k1 split: sum.splits)
  finally show ?thesis .
qed

lemma fold_generation_keys [simp]:
  "keys (foldl (derive_generation A kg yg tks srcs) ks js) = keys ks"
  by (induction js arbitrary: ks) simp_all

lemma fold_generation_other:
  "i \<notin> set js \<Longrightarrow>
   titleKeks (foldl (derive_generation A kg yg tks srcs) ks js) i = titleKeks ks i
   \<and> keyAreaKeys (foldl (derive_generation A kg yg tks srcs) ks js) i = keyAreaKeys ks i"
  by (induction js arbitrary: ks) (simp_all add: derive_generation_other)

lemma fold_generation_split:
  assumes "i < n"
  shows "foldl (derive_generation A kg yg tks srcs) ks [0..<n] =
         foldl (derive_generation A kg yg tks srcs)
           (derive_generation A kg yg tks srcs
              (foldl (derive_generation A kg yg tks srcs) ks [0..<i]) i) [Suc i..<n]"
proof -
  have "[0..<n] = [0..<i] @ i # [Suc i..<n]"
    using assms upt_add_eq_append[of 0 i "n - i"] by (simp add: upt_conv_Cons)
  then show ?thesis by simp
qed

lemma GenerateKek_chain:
  "GenerateKek A src mk kg (Some yg) =
     (case ECBDecrypt A kg mk of
        Inl e \<Rightarrow> Inl e
      | Inr kek \<Rightarrow> (case ECBDecrypt A src kek of
                      Inl e \<Rightarrow> Inl e
                    | Inr srcKek \<Rightarrow> ECBDecrypt A yg srcKek))"
  by (simp add: GenerateKek_def split: sum.splits)

lemma blocks_map_16:
  "length xs = 16 \<Longrightarrow> blocks_map f xs = f xs"
  by (subst blocks_map.simps, subst blocks_map.simps) auto

lemma ECBDecrypt_shift_16:
  "length d = 16 \<Longrightarrow> length k = 16 \<Longrightarrow> ECBDecrypt shift_cipher d k = Inr (map (\<lambda>x. x - 1) d)"
  using ECBDecrypt_ok[OF shift_cipher_sized, of k k d]
  by (simp add: aes_NewCipher_def blocks_map_16 shift_cipher_def)

lemma DeriveKeys_entry:
  assumes "i < 32"
    and "keys ks ''aes_kek_generation_source'' = Some kekGen"
    and "keys ks ''aes_key_generation_source'' = Some keyGen"
    and "keys ks ''titlekek_source'' = Some tkSrc"
    and "keys ks ''key_area_key_application_source'' = Some kakSrc"
  shows "keys ks (masterKeyName i) = Some mk \<Longrightarrow>
            titleKeks (DeriveKeys A ks) i =
              (case ECBDecrypt A tkSrc mk of Inr tk \<Rightarrow> Some tk | Inl e \<Rightarrow> titleKeks ks i)
          \<and> keyAreaKeys (DeriveKeys A ks) i 0 =
              (case ECBDecrypt A kekGen mk of
                 Inl e \<Rightarrow> keyAreaKeys ks i 0
               | Inr kek \<Rightarrow>
                   (case ECBDecrypt A kakSrc kek of
                      Inl e \<Rightarrow> keyAreaKeys ks i 0
                    | Inr srcKek \<Rightarrow>
                        (case ECBDecrypt A keyGen srcKek of
                           Inl e \<Rightarrow> keyAreaKeys ks i 0
                         | Inr kak \<Rightarrow> Some kak)))"
    and "keys ks (masterKeyName i) = None \<Longrightarrow>
            titleKeks (DeriveKeys A ks) i = titleKeks ks i
          \<and> keyAreaKeys (DeriveKeys A ks) i = keyAreaKeys ks i"
proof -
  let ?srcs = "[Some kakSrc, keys ks ''key_area_key_ocean_source'',
                keys ks ''key_area_key_system_source'']"
  let ?g = "derive_generation A kekGen keyGen (Some tkSrc) ?srcs"
  let ?pre = "foldl ?g ks [0..<i]"
  have D: "DeriveKeys A ks = foldl ?g (?g ?pre i) [Suc i..<32]"
    using assms(2-5) fold_generation_split[OF assms(1), of A kekGen keyGen "Some tkSrc" ?srcs ks]
    by (simp add: DeriveKeys_def Let_def)
  have post: "titleKeks (DeriveKeys A ks) i = titleKeks (?g ?pre i) i"
    "keyAreaKeys (DeriveKeys A ks) i = keyAreaKeys (?g ?pre i) i"
    unfolding D using fold_generation_other[of i "[Suc i..<32]" A kekGen keyGen "Some tkSrc" ?srcs "?g ?pre i"]
    by simp_all
  have pre: "titleKeks ?pre i = titleKeks ks i" "keyAreaKeys ?pre i = keyAreaKeys ks i"
    "keys ?pre = keys ks"
    using fold_generation_other[of i "[0..<i]" A kekGen keyGen "Some tkSrc" ?srcs ks]
    by simp_all
  show "titleKeks (DeriveKeys A ks) i =
              (case ECBDecrypt A tkSrc mk of Inr tk \<Rightarrow> Some tk | Inl e \<Rightarrow> titleKeks ks i)
          \<and> keyAreaKeys (DeriveKeys A ks) i 0 =
              (case ECBDecrypt A kekGen mk of
                 Inl e \<Rightarrow> keyAreaKeys ks i 0
               | Inr kek \<Rightarrow>
                   (case ECBDecrypt A kakSrc kek of
                      Inl e \<Rightarrow> keyAreaKeys ks i 0
                    | Inr srcKek \<Rightarrow>
                        (case ECBDecrypt A keyGen srcKek of
                           Inl e \<Rightarrow> keyAreaKeys ks i 0
                         | Inr kak \<Rightarrow> Some kak)))"
    if mk: "keys ks (masterKeyName i) = Some mk"
  proof -
    have mk': "keys ?pre (masterKeyName i) = Some mk" using mk pre(3) by simp
    show ?thesis
      unfolding post derive_generation_titleKek[OF mk'] derive_generation_kak[OF mk']
        GenerateKek_chain pre
      by (simp split: sum.splits)
  qed
  show "titleKeks (DeriveKeys A ks) i = titleKeks ks i
          \<and> keyAreaKeys (DeriveKeys A ks) i = keyAreaKeys ks i"
    if no: "keys ks (masterKeyName i) = None"
  proof -
    have "keys ?pre (masterKeyName i) = None" using no pre(3) by simp
    then have "?g ?pre i = ?pre" by (rule derive_generation_absent)
    then show ?thesis unfolding post using pre by simp
  qed
qed

lemma ECBDecrypt_succeeds:
  assumes "aes_key_length (length key)" and "length data mod 16 = 0"
  shows "\<exists>out. ECBDecrypt A data key = Inr out"
  using assms by (simp add: ECBDecrypt_def aes_NewCipher_def aes_key_length_def)

lemma ECBDecrypt_length:
  assumes "aes_block_sized A" and "aes_key_length (length key)" and "length data mod 16 = 0"
    and "ECBDecrypt A data key = Inr out"
  shows "length out = length data"
proof -
  have n: "aes_NewCipher key = Inr key"
    using assms(2) by (simp add: aes_NewCipher_def aes_key_length_def)
  have sd: "\<forall>b. length b = 16 \<longrightarrow> length (aes_decrypt A key b) = 16"
    using assms(1) by (auto simp: aes_block_sized_def)
  have "16 dvd length data" using assms(3) by (simp add: dvd_eq_mod_eq_0)
  from length_blocks_map[OF this sd] ECBDecrypt_ok[OF assms(1) n assms(3)] assms(4)
  show ?thesis by simp
qed

lemma master_key_names:
  "masterKeyName 0 = ''master_key_00''" "masterKeyName 1 = ''master_key_01''"
  "masterKeyName (Suc 0) = ''master_key_01''"
  by (simp_all add: masterKeyName_def hexdigit_def)

lemma sample_keystore_keys:
  "keys sample_keystore ''aes_kek_generation_source'' = Some (replicate 16 1)"
  "keys sample_keystore ''aes_key_generation_source'' = Some (replicate 16 2)"
  "keys sample_keystore ''titlekek_source'' = Some (replicate 16 3)"
  "keys sample_keystore ''key_area_key_application_source'' = Some (replicate 16 4)"
  "keys sample_keystore ''master_key_00'' = Some (replicate 16 5)"
  "keys sample_keystore ''master_key_01'' = None"
  by (simp_all add: sample_keystore_def empty_keystore_def)

lemma short_keystore_keys:
  "keys short_keystore ''aes_kek_generation_source'' = Some (replicate 16 1)"
  "keys short_keystore ''aes_key_generation_source'' = Some (replicate 16 2)"
  "keys short_keystore ''titlekek_source'' = Some (replicate 16 3)"
  "keys short_keystore ''key_area_key_application_source'' = Some (replicate 16 4)"
  "keys short_keystore ''master_key_00'' = Some (replicate 15 5)"
  by (simp_all add: short_keystore_def empty_keystore_def)

lemma short_key_rejected: "ECBDecrypt A d (replicate 15 5) = Inl KeySizeError"
  by (simp add: ECBDecrypt_def aes_NewCipher_def)

text \<open>
  C7, as amended. With the four source constants present, for every generation \<open>i < 32\<close>
  whose master key is loaded:

  \<^item> if the master key has 16, 24 or 32 bytes and \<open>titlekek_source\<close> a multiple of 16 bytes,
    \<open>DeriveKeys\<close> sets \<open>titleKeks[i]\<close> to \<open>ECBDecrypt(titlekek_source, master_key)\<close>;

  \<^item> if the master key has 16, 24 or 32 bytes, \<open>aes_kek_generation_source\<close> and
    \<open>key_area_key_application_source\<close> have 16 or 32 bytes and \<open>aes_key_generation_source\<close> a
    multiple of 16 bytes, \<open>DeriveKeys\<close> sets \<open>keyAreaKeys[i][0]\<close> to
    \<open>ECBDecrypt(aes_key_generation_source, ECBDecrypt(key_area_key_application_source,
    ECBDecrypt(aes_kek_generation_source, master_key)))\<close> (the block cipher maps 16-byte
    blocks to 16-byte blocks);

  \<^item> in general, the entry is the result of the decryptions where they all succeed, and
    keeps its former value where one of them returns an error.

  A generation whose master key is absent keeps its former entries.
\<close>

theorem C7_derive_keys:
  assumes "i < 32"
    and "keys ks ''aes_kek_generation_source'' = Some kekGen"
    and "keys ks ''aes_key_generation_source'' = Some keyGen"
    and "keys ks ''titlekek_source'' = Some tkSrc"
    and "keys ks ''key_area_key_application_source'' = Some kakSrc"
  shows "(\<forall>mk. keys ks (masterKeyName i) = Some mk \<longrightarrow>
            (aes_key_length (length mk) \<and> length tkSrc mod 16 = 0 \<longrightarrow>
               (\<exists>tk. ECBDecrypt A tkSrc mk = Inr tk
                     \<and> titleKeks (DeriveKeys A ks) i = Some tk))
          \<and> (aes_block_sized A \<and> aes_key_length (length mk)
               \<and> length kekGen \<in> {16, 32} \<and> length kakSrc \<in> {16, 32}
               \<and> length keyGen mod 16 = 0 \<longrightarrow>
               (\<exists>kek srcKek kak. ECBDecrypt A kekGen mk = Inr kek
                     \<and> ECBDecrypt A kakSrc kek = Inr srcKek
                     \<and> ECBDecrypt A keyGen srcKek = Inr kak
                     \<and> keyAreaKeys (DeriveKeys A ks) i 0 = Some kak))
          \<and> titleKeks (DeriveKeys A ks) i =
              (case ECBDecrypt A tkSrc mk of Inr tk \<Rightarrow> Some tk | Inl e \<Rightarrow> titleKeks ks i)
          \<and> keyAreaKeys (DeriveKeys A ks) i 0 =
              (case ECBDecrypt A kekGen mk of
                 Inl e \<Rightarrow> keyAreaKeys ks i 0
               | Inr kek \<Rightarrow>
                   (case ECBDecrypt A kakSrc kek of
                      Inl e \<Rightarrow> keyAreaKeys ks i 0
                    | Inr srcKek \<Rightarrow>
                        (case ECBDecrypt A keyGen srcKek of
                           Inl e \<Rightarrow> keyAreaKeys ks i 0
                         | Inr kak \<Rightarrow> Some kak))))
       \<and> (keys ks (masterKeyName i) = None \<longrightarrow>
            titleKeks (DeriveKeys A ks) i = titleKeks ks i
          \<and> keyAreaKeys (DeriveKeys A ks) i = keyAreaKeys ks i)"
proof (intro conjI allI impI)
  fix mk assume mk: "keys ks (masterKeyName i) = Some mk"
  note gen = DeriveKeys_entry(1)[OF assms mk, of A]
  from gen show "titleKeks (DeriveKeys A ks) i =
              (case ECBDecrypt A tkSrc mk of Inr tk \<Rightarrow> Some tk | Inl e \<Rightarrow> titleKeks ks i)"
    by blast
  from gen show "keyAreaKeys (DeriveKeys A ks) i 0 =
              (case ECBDecrypt A kekGen mk of
                 Inl e \<Rightarrow> keyAreaKeys ks i 0
               | Inr kek \<Rightarrow>
                   (case ECBDecrypt A kakSrc kek of
                      Inl e \<Rightarrow> keyAreaKeys ks i 0
                    | Inr srcKek \<Rightarrow>
                        (case ECBDecrypt A keyGen srcKek of
                           Inl e \<Rightarrow> keyAreaKeys ks i 0
                         | Inr kak \<Rightarrow> Some kak)))"
    by blast
  {
    assume h: "aes_key_length (length mk) \<and> length tkSrc mod 16 = 0"
    obtain tk where tk: "ECBDecrypt A tkSrc mk = Inr tk"
      using ECBDecrypt_succeeds[OF h[THEN conjunct1] h[THEN conjunct2], of A] by blast
    with gen show "\<exists>tk. ECBDecrypt A tkSrc mk = Inr tk
                     \<and> titleKeks (DeriveKeys A ks) i = Some tk"
      by simp
  }
  {
    assume h: "aes_block_sized A \<and> aes_key_length (length mk)
               \<and> length kekGen \<in> {16, 32} \<and> length kakSrc \<in> {16, 32}
               \<and> length keyGen mod 16 = 0"
    hence bs: "aes_block_sized A" and lmk: "aes_key_length (length mk)"
      and lk: "length kekGen = 16 \<or> length kekGen = 32"
      and la: "length kakSrc = 16 \<or> length kakSrc = 32"
      and ly: "length keyGen mod 16 = 0"
      by simp_all
    have lk': "length kekGen mod 16 = 0" and la': "length kakSrc mod 16 = 0"
      using lk la by auto
    obtain kek where kek: "ECBDecrypt A kekGen mk = Inr kek"
      using ECBDecrypt_succeeds[OF lmk lk', of A] by blast
    have "length kek = length kekGen" by (rule ECBDecrypt_length[OF bs lmk lk' kek])
    hence kl: "aes_key_length (length kek)" using lk by (auto simp: aes_key_length_def)
    obtain srcKek where sk: "ECBDecrypt A kakSrc kek = Inr srcKek"
      using ECBDecrypt_succeeds[OF kl la', of A] by blast
    have "length srcKek = length kakSrc" by (rule ECBDecrypt_length[OF bs kl la' sk])
    hence sl: "aes_key_length (length srcKek)" using la by (auto simp: aes_key_length_def)
    obtain kak where kak: "ECBDecrypt A keyGen srcKek = Inr kak"
      using ECBDecrypt_succeeds[OF sl ly, of A] by blast
    from gen kek sk kak
    show "\<exists>kek srcKek kak. ECBDecrypt A kekGen mk = Inr kek
                     \<and> ECBDecrypt A kakSrc kek = Inr srcKek
                     \<and> ECBDecrypt A keyGen srcKek = Inr kak
                     \<and> keyAreaKeys (DeriveKeys A ks) i 0 = Some kak"
      by simp
  }
next
  assume no: "keys ks (masterKeyName i) = None"
  from DeriveKeys_entry(2)[OF assms no, of A]
  show "titleKeks (DeriveKeys A ks) i = titleKeks ks i"
    and "keyAreaKeys (DeriveKeys A ks) i = keyAreaKeys ks i"
    by simp_all
qed

text \<open>The theorem at the sample key store: generation 0 is derived, generation 1 is not.\<close>

theorem C7_witness:
  "(0::nat) < 32
   \<and> keys sample_keystore ''aes_kek_generation_source'' = Some (replicate 16 1)
   \<and> keys sample_keystore ''aes_key_generation_source'' = Some (replicate 16 2)
   \<and> keys sample_keystore ''titlekek_source'' = Some (replicate 16 3)
   \<and> keys sample_keystore ''key_area_key_application_source'' = Some (replicate 16 4)
   \<and> keys sample_keystore (masterKeyName 0) = Some (replicate 16 5)
   \<and> aes_block_sized shift_cipher
   \<and> aes_key_length (length (replicate 16 (5::byte)))
   \<and> ECBDecrypt shift_cipher (replicate 16 3) (replicate 16 5) = Inr (replicate 16 2)
   \<and> titleKeks (DeriveKeys shift_cipher sample_keystore) 0 = Some (replicate 16 2)
   \<and> keyAreaKeys (DeriveKeys shift_cipher sample_keystore) 0 0 = Some (replicate 16 1)
   \<and> keys sample_keystore (masterKeyName 1) = None
   \<and> titleKeks (DeriveKeys shift_cipher sample_keystore) 1 = None"
proof -
  have t: "titleKeks sample_keystore 1 = None" "titleKeks sample_keystore (Suc 0) = None"
    by (simp_all add: sample_keystore_def empty_keystore_def)
  have z: "(0::nat) < 32" "(1::nat) < 32" by simp_all
  note k = sample_keystore_keys
  have l: "aes_key_length (length (replicate 16 (5::byte)))" by (simp add: aes_key_length_def)
  show ?thesis
    using C7_derive_keys[OF z(1) k(1-4), of shift_cipher] C7_derive_keys[OF z(2) k(1-4), of shift_cipher]
    by (simp add: master_key_names k t aes_key_length_def ECBDecrypt_shift_16 shift_cipher_sized)
qed

text \<open>
  C7 as stated fails at a loaded master key that \<open>aes.NewCipher\<close> rejects: with the four
  source constants present and a master key of generation 0 of 15 bytes, every
  decryption under that key returns the key size error, and \<open>DeriveKeys\<close> leaves
  \<open>titleKeks[0]\<close> and \<open>keyAreaKeys[0][0]\<close> unset.
\<close>

theorem C7_counterexample:
  "keys short_keystore ''aes_kek_generation_source'' = Some (replicate 16 1)
   \<and> keys short_keystore ''aes_key_generation_source'' = Some (replicate 16 2)
   \<and> keys short_keystore ''titlekek_source'' = Some (replicate 16 3)
   \<and> keys short_keystore ''key_area_key_application_source'' = Some (replicate 16 4)
   \<and> keys short_keystore (masterKeyName 0) = Some (replicate 15 5)
   \<and> ECBDecrypt shift_cipher (replicate 16 3) (replicate 15 5) = Inl KeySizeError
   \<and> ECBDecrypt shift_cipher (replicate 16 1) (replicate 15 5) = Inl KeySizeError
   \<and> titleKeks (DeriveKeys shift_cipher short_keystore) 0 = None
   \<and> keyAreaKeys (DeriveKeys shift_cipher short_keystore) 0 0 = None"
proof -
  note k = short_keystore_keys
  have z: "(0::nat) < 32" by simp
  have m: "keys short_keystore (masterKeyName 0) = Some (replicate 15 5)"
    by (simp add: master_key_names k)
  have e: "titleKeks short_keystore 0 = None" "keyAreaKeys short_keystore 0 0 = None"
    by (simp_all add: short_keystore_def empty_keystore_def)
  from DeriveKeys_entry(1)[OF z k(1-4) m, of shift_cipher]
  have "titleKeks (DeriveKeys shift_cipher short_keystore) 0 = None
   \<and> keyAreaKeys (DeriveKeys shift_cipher short_keystore) 0 0 = None"
    by (simp add: short_key_rejected e)
  with k(1-4) m short_key_rejected show ?thesis by blast
qed

subsection \<open>AES-CTR with the counter derived from the absolute offset\<close>

lemma length_le_enc [simp]: "length (le_enc n v) = n"
  by (induction n arbitrary: v) simp_all

lemma byte_of_nat_mod: "(of_nat (x mod 256) :: byte) = of_nat x"
  by (simp add: word_of_nat_eq_iff take_bit_eq_mod)

lemma nat_256_pow: "(256::nat) = 2 ^ 8" by simp
lemma div_pow_pow: "(v::nat) div 2 ^ a div 2 ^ b = v div 2 ^ (a + b)"
    by (simp add: div_mult2_eq power_add)
lemma byte_of_nat_mod_pow: "(of_nat (x mod 2 ^ 8) :: byte) = of_nat x"
    using byte_of_nat_mod by simp
lemma eight_Suc:  "(8::nat) = Suc (Suc (Suc (Suc (Suc (Suc (Suc (Suc 0)))))))" by simp
lemma le_enc_8_unfold: "le_enc 8 v =
    [of_nat (v mod 2 ^ 8), of_nat (v div 2 ^ 8 mod 2 ^ 8), of_nat (v div 2 ^ 8 div 2 ^ 8 mod 2 ^ 8),
     of_nat (v div 2 ^ 8 div 2 ^ 8 div 2 ^ 8 mod 2 ^ 8),
     of_nat (v div 2 ^ 8 div 2 ^ 8 div 2 ^ 8 div 2 ^ 8 mod 2 ^ 8),
     of_nat (v div 2 ^ 8 div 2 ^ 8 div 2 ^ 8 div 2 ^ 8 div 2 ^ 8 mod 2 ^ 8),
     of_nat (v div 2 ^ 8 div 2 ^ 8 div 2 ^ 8 div 2 ^ 8 div 2 ^ 8 div 2 ^ 8 mod 2 ^ 8),
     of_nat (v div 2 ^ 8 div 2 ^ 8 div 2 ^ 8 div 2 ^ 8 div 2 ^ 8 div 2 ^ 8 div 2 ^ 8 mod 2 ^ 8)]"
proof -
  have "le_enc (Suc (Suc (Suc (Suc (Suc (Suc (Suc (Suc 0)))))))) v =
    [of_nat (v mod 256), of_nat (v div 256 mod 256), of_nat (v div 256 div 256 mod 256),
     of_nat (v div 256 div 256 div 256 mod 256),
     of_nat (v div 256 div 256 div 256 div 256 mod 256),
     of_nat (v div 256 div 256 div 256 div 256 div 256 mod 256),
     of_nat (v div 256 div 256 div 256 div 256 div 256 div 256 mod 256),
     of_nat (v div 256 div 256 div 256 div 256 div 256 div 256 div 256 mod 256)]"
    by (simp only: le_enc.simps)
  then show ?thesis by (simp only: eight_Suc[symmetric] nat_256_pow)
qed

lemma le_enc_8:
  "le_enc 8 v = [of_nat v, of_nat (v div 2 ^ 8), of_nat (v div 2 ^ 16), of_nat (v div 2 ^ 24),
     of_nat (v div 2 ^ 32), of_nat (v div 2 ^ 40), of_nat (v div 2 ^ 48), of_nat (v div 2 ^ 56)]"
proof -
  have "le_enc 8 v = [of_nat v, of_nat (v div 2 ^ 8), of_nat (v div 2 ^ (8 + 8)),
     of_nat (v div 2 ^ (8 + 8 + 8)), of_nat (v div 2 ^ (8 + 8 + 8 + 8)),
     of_nat (v div 2 ^ (8 + 8 + 8 + 8 + 8)), of_nat (v div 2 ^ (8 + 8 + 8 + 8 + 8 + 8)),
     of_nat (v div 2 ^ (8 + 8 + 8 + 8 + 8 + 8 + 8))]"
    unfolding le_enc_8_unfold by (simp only: byte_of_nat_mod_pow div_pow_pow)
  then show ?thesis by simp
qed

lemma ucast_drop_bit_byte:
  "(ucast (drop_bit n (w::uint64)) :: byte) = of_nat (unat w div 2 ^ n)"
proof -
  have t: "\<And>x::nat. take_bit 8 x = x mod 256" by (simp add: take_bit_eq_mod)
  have d: "unat (drop_bit n w) = unat w div 2 ^ n"
    by (simp only: unat_drop_bit_eq) (simp only: drop_bit_eq_div)
  have "unat (ucast (drop_bit n w) :: byte) = take_bit 8 (unat (drop_bit n w))"
    by (simp only: unsigned_ucast_eq) simp
  also have "\<dots> = (unat w div 2 ^ n) mod 256"
    by (simp only: d t)
  also have "\<dots> = unat (of_nat (unat w div 2 ^ n) :: byte)"
    by (simp only: unat_of_nat) simp
  finally show ?thesis by (simp only: word_unat_eq_iff)
qed

lemma ucast_byte: "(ucast (w::uint64) :: byte) = of_nat (unat w)"
  using ucast_drop_bit_byte[of 0 w] by simp

lemma PutUint64_of_nat:
  "BigEndian_PutUint64 w =
    [of_nat (unat w div 2 ^ 56), of_nat (unat w div 2 ^ 48), of_nat (unat w div 2 ^ 40),
     of_nat (unat w div 2 ^ 32), of_nat (unat w div 2 ^ 24), of_nat (unat w div 2 ^ 16),
     of_nat (unat w div 2 ^ 8), of_nat (unat w)]"
  unfolding BigEndian_PutUint64_def by (simp only: ucast_drop_bit_byte ucast_byte[of w])

lemma rev_PutUint64: "rev (BigEndian_PutUint64 w) = le_enc 8 (unat w)"
  by (simp only: PutUint64_of_nat le_enc_8 rev.simps append.simps)

lemma PutUint64_le_enc: "BigEndian_PutUint64 w = rev (le_enc 8 (unat w))"
  using rev_PutUint64[of w] by (metis rev_rev_ident)

lemma length_PutUint64 [simp]: "length (BigEndian_PutUint64 w) = 8"
  by (simp add: BigEndian_PutUint64_def)

lemma ctr_inc_rev_le_enc:
  "v mod 256 ^ n + 1 < 256 ^ n \<Longrightarrow> ctr_inc_rev (le_enc n v @ hi) = le_enc n (v + 1) @ hi"
proof (induction n arbitrary: v)
  case 0
  then show ?case by simp
next
  case (Suc n)
  have split: "v mod 256 ^ Suc n = 256 * (v div 256 mod 256 ^ n) + v mod 256"
    by (simp add: mod_mult2_eq)
  show ?case
  proof (cases "v mod 256 = 255")
    case True
    have b: "(of_nat (v mod 256) :: byte) + 1 = 0" using True by simp
    have q: "(v + 1) div 256 = v div 256 + 1" "(v + 1) mod 256 = 0"
      using True div_add1_eq[of v 1 256] mod_add_left_eq[of v 256 1] by simp_all
    have "v div 256 mod 256 ^ n + 1 < 256 ^ n"
      using Suc.prems True unfolding split by simp
    from Suc.IH[OF this] show ?thesis using b q by simp
  next
    case False
    have "v mod 256 < 256" by simp
    with False have lt: "v mod 256 < 255" by linarith
    have "unat ((of_nat (v mod 256) :: byte) + 1) = v mod 256 + 1"
      using lt by (simp add: unat_word_ariths unat_of_nat)
    hence b: "(of_nat (v mod 256) :: byte) + 1 \<noteq> 0"
      by (metis Suc_eq_plus1 nat.distinct(1) unat_0 unsigned_0)
    have q: "(v + 1) div 256 = v div 256" "(v + 1) mod 256 = v mod 256 + 1"
      using lt div_add1_eq[of v 1 256] mod_add_left_eq[of v 256 1] by simp_all
    show ?thesis using b q by simp
  qed
qed

lemma ctr_inc_counter:
  assumes "unat w + 1 < 2 ^ 64"
  shows "ctr_inc (hi @ BigEndian_PutUint64 w) = hi @ BigEndian_PutUint64 (w + 1)"
proof -
  have p: "(256::nat) ^ 8 = 2 ^ 64" by simp
  have m: "unat w mod 256 ^ 8 + 1 < 256 ^ 8"
    using assms unfolding p by simp
  have u: "unat (w + 1) = unat w + 1"
    using assms by (simp add: unat_word_ariths)
  have "ctr_inc (hi @ BigEndian_PutUint64 w) = rev (ctr_inc_rev (le_enc 8 (unat w) @ rev hi))"
    by (simp add: ctr_inc_def rev_PutUint64)
  also have "\<dots> = rev (le_enc 8 (unat w + 1) @ rev hi)"
    by (simp only: ctr_inc_rev_le_enc[OF m])
  also have "\<dots> = hi @ BigEndian_PutUint64 (w + 1)"
    by (simp add: PutUint64_le_enc u)
  finally show ?thesis .
qed

lemma ctr_inc_counter_funpow:
  "unat w + k < 2 ^ 64 \<Longrightarrow>
   (ctr_inc ^^ k) (hi @ BigEndian_PutUint64 w) = hi @ BigEndian_PutUint64 (w + of_nat k)"
proof (induction k)
  case 0
  then show ?case by simp
next
  case (Suc k)
  from Suc.prems have lt: "unat w + k < 2 ^ 64" by simp
  have u: "unat (w + of_nat k) = unat w + k"
    using lt by (simp add: unat_word_ariths unat_of_nat)
  have "unat (w + of_nat k) + 1 < 2 ^ 64" using Suc.prems u by simp
  from ctr_inc_counter[OF this, of hi] Suc.IH[OF lt] show ?case
    by (simp add: ac_simps)
qed

lemma length_copy16 [simp]: "length (copy16 src) = 16"
  by (simp add: copy16_def)

lemma NewCTRStream_ok:
  "length key = 16 \<Longrightarrow>
   NewCTRStream key iv off =
     Inr \<lparr>stream_key = key,
          stream_ctr = take 8 (copy16 iv) @ BigEndian_PutUint64 (word_of_int (off div 16))\<rparr>"
  by (simp add: NewCTRStream_def getCachedCipher_def aes_NewCipher_def write_at_def Let_def)

lemma ctr_xor_append:
  "16 dvd length a \<Longrightarrow>
   ctr_xor E c (a @ b) = ctr_xor E c a @ ctr_xor E ((ctr_inc ^^ (length a div 16)) c) b"
proof (induction E c a rule: ctr_xor.induct)
  case (1 E c a)
  show ?case
  proof (cases "a = []")
    case True
    then show ?thesis by (simp add: ctr_xor.simps[of E c "[]"])
  next
    case False
    with "1.prems" have ge: "16 \<le> length a" by (simp add: dvd_imp_le)
    hence dv: "16 dvd length (drop 16 a)" using "1.prems" by (simp add: dvd_diff_nat)
    have k: "length a div 16 = Suc (length (drop 16 a) div 16)"
      using ge "1.prems" by (auto elim!: dvdE)
    have ih: "ctr_xor E (ctr_inc c) (drop 16 a @ b) =
        ctr_xor E (ctr_inc c) (drop 16 a) @
        ctr_xor E ((ctr_inc ^^ (length (drop 16 a) div 16)) (ctr_inc c)) b"
      using "1.IH"[OF False dv] .
    have l: "ctr_xor E c (a @ b) =
        map2 (XOR) (take 16 a) (E c) @ ctr_xor E (ctr_inc c) (drop 16 a @ b)"
      using False ge by (subst ctr_xor.simps) simp
    have r: "ctr_xor E c a = map2 (XOR) (take 16 a) (E c) @ ctr_xor E (ctr_inc c) (drop 16 a)"
      using False by (subst ctr_xor.simps) simp
    show ?thesis
      unfolding l r ih k by (simp add: funpow_swap1)
  qed
qed

lemma be_nat_snoc: "be_nat (xs @ [b]) = be_nat xs * 256 + unat b"
  by (simp add: be_nat_def)

lemma be_nat_rev_le_enc: "be_nat (rev (le_enc n v)) = v mod 256 ^ n"
proof (induction n arbitrary: v)
  case 0
  then show ?case by (simp add: be_nat_def)
next
  case (Suc n)
  have "unat (of_nat (v mod 256) :: byte) = v mod 256"
    by (simp add: unat_of_nat)
  then show ?case
    using Suc.IH[of "v div 256"] by (simp add: be_nat_snoc mod_mult2_eq)
qed

lemma be_nat_PutUint64: "be_nat (BigEndian_PutUint64 w) = unat w"
proof -
  have "unat w < 2 ^ 64" using unsigned_less[of w] by simp
  then show ?thesis by (simp add: PutUint64_le_enc be_nat_rev_le_enc)
qed

lemma counter_advance:
  assumes "0 \<le> off" and "off + 16 * int k < 2 ^ 63"
  shows "(ctr_inc ^^ k) (hi @ BigEndian_PutUint64 (word_of_int (off div 16))) =
         hi @ BigEndian_PutUint64 (word_of_int ((off + 16 * int k) div 16))"
proof -
  let ?w = "word_of_int (off div 16) :: uint64"
  have d: "(off + 16 * int k) div 16 = off div 16 + int k" by simp
  have b: "0 \<le> off div 16" "off div 16 + int k < 2 ^ 59"
    using assms by simp_all
  have "uint ?w = (off div 16) mod 2 ^ 64" by (simp add: uint_word_of_int)
  also have "\<dots> = off div 16" using b by simp
  finally have u: "unat ?w = nat (off div 16)" by (simp add: unat_eq_nat_uint)
  have "int (nat (off div 16) + k) < 2 ^ 59" using b by simp
  hence "nat (off div 16) + k < 2 ^ 59" by (metis of_nat_less_numeral_power_cancel_iff)
  hence "unat ?w + k < 2 ^ 64" unfolding u by simp
  from ctr_inc_counter_funpow[OF this, of hi] show ?thesis
    unfolding d by (simp add: wi_hom_add[symmetric] del: wi_hom_add)
qed

lemma ctr_apply_ok:
  "length key = 16 \<Longrightarrow>
   ctr_apply A key iv off src =
     ctr_xor (aes_encrypt A key)
       (take 8 (copy16 iv) @ BigEndian_PutUint64 (word_of_int (off div 16))) src"
  by (simp add: ctr_apply_def NewCTRStream_ok XORKeyStream_def)

lemma ctr_apply_append:
  assumes "length key = 16" and "0 \<le> off" and "off + int (length a) < 2 ^ 63"
    and "16 dvd length a"
  shows "ctr_apply A key iv off (a @ b) =
         ctr_apply A key iv off a @ ctr_apply A key iv (off + int (length a)) b"
proof -
  obtain k where k: "length a = 16 * k" using assms(4) by (auto elim: dvdE)
  have adv: "(ctr_inc ^^ k) (take 8 (copy16 iv) @ BigEndian_PutUint64 (word_of_int (off div 16))) =
         take 8 (copy16 iv) @ BigEndian_PutUint64 (word_of_int ((off + 16 * int k) div 16))"
    using assms(2,3) k by (intro counter_advance) simp_all
  show ?thesis
    unfolding ctr_apply_ok[OF assms(1)] ctr_xor_append[OF assms(4)]
    using adv k by simp
qed

lemma ctr_apply_nil: "ctr_apply A key iv off [] = []"
  by (simp add: ctr_apply_def XORKeyStream_def ctr_xor.simps split: sum.splits)

lemma ctr_pieces_concat:
  "length key = 16 \<Longrightarrow> 0 \<le> off \<Longrightarrow> off + int (length (concat ps)) < 2 ^ 63 \<Longrightarrow>
   \<forall>p \<in> set (butlast ps). 16 dvd length p \<Longrightarrow>
   ctr_apply A key iv off (concat ps) = ctr_pieces A key iv off ps"
proof (induction ps arbitrary: off)
  case Nil
  then show ?case by (simp add: ctr_apply_nil)
next
  case (Cons p ps)
  show ?case
  proof (cases "ps = []")
    case True
    then show ?thesis by simp
  next
    case False
    with Cons.prems(4) have dv: "16 dvd length p" and rest: "\<forall>q \<in> set (butlast ps). 16 dvd length q"
      by simp_all
    have lp: "off + int (length p) < 2 ^ 63" using Cons.prems(3) by simp
    have ih: "ctr_apply A key iv (off + int (length p)) (concat ps) =
              ctr_pieces A key iv (off + int (length p)) ps"
      using Cons.prems by (intro Cons.IH rest) simp_all
    show ?thesis
      using ctr_apply_append[OF Cons.prems(1,2) lp dv, of A iv "concat ps"] ih by simp
  qed
qed

text \<open>
  C3. For a 16-byte key and a 16-byte iv, the stream of \<open>NewCTRStream(key, iv, O)\<close> starts
  at the counter whose bytes 0..7 are those of the iv and whose bytes 8..15 are the
  big-endian 64-bit value of \<open>O >> 4\<close>. Hence, for an offset \<open>O \<ge> 0\<close> and a range that
  ends within the \<open>int64\<close> offsets, processing the whole range with one stream gives the
  same bytes as processing its pieces in turn, each with a stream of its own made at
  the piece's offset, whenever every piece but the last has a length that is a multiple
  of 16 (the cuts are 16 bytes apart from \<open>O\<close>, so they are aligned when \<open>O\<close> is).
\<close>

theorem C3_ctr_counter_and_partition:
  assumes "length key = 16" and "length iv = 16"
  shows "(case NewCTRStream key iv off of
            Inr stream \<Rightarrow>
              length (stream_ctr stream) = 16
              \<and> take 8 (stream_ctr stream) = take 8 iv
              \<and> drop 8 (stream_ctr stream) = BigEndian_PutUint64 (word_of_int (off div 16))
              \<and> be_nat (drop 8 (stream_ctr stream)) = nat ((off div 16) mod 2 ^ 64)
          | Inl e \<Rightarrow> False)
       \<and> (0 \<le> off \<and> off + int (length (concat ps)) < 2 ^ 63
            \<and> (\<forall>p \<in> set (butlast ps). 16 dvd length p) \<longrightarrow>
          ctr_apply A key iv off (concat ps) = ctr_pieces A key iv off ps)"
proof -
  have u: "unat (word_of_int (off div 16) :: uint64) = nat ((off div 16) mod 2 ^ 64)"
    by (simp add: unat_eq_nat_uint uint_word_of_int)
  have c: "copy16 iv = iv" using assms(2) by (simp add: copy16_def)
  have 1: "(case NewCTRStream key iv off of
            Inr stream \<Rightarrow>
              length (stream_ctr stream) = 16
              \<and> take 8 (stream_ctr stream) = take 8 iv
              \<and> drop 8 (stream_ctr stream) = BigEndian_PutUint64 (word_of_int (off div 16))
              \<and> be_nat (drop 8 (stream_ctr stream)) = nat ((off div 16) mod 2 ^ 64)
          | Inl e \<Rightarrow> False)"
    using assms(2) by (simp add: NewCTRStream_ok[OF assms(1)] c be_nat_PutUint64 u)
  from 1 ctr_pieces_concat[OF assms(1), of off ps A iv] show ?thesis by blast
qed

text \<open>The theorem at offset 32 and pieces of 32, 16 and 5 bytes.\<close>

theorem C3_witness:
  "length (replicate 16 (1::byte)) = 16 \<and> length (replicate 16 (2::byte)) = 16
   \<and> (0::int) \<le> 32
   \<and> 32 + int (length (concat [replicate 32 (3::byte), replicate 16 4, replicate 5 5])) < 2 ^ 63
   \<and> ctr_apply shift_cipher (replicate 16 1) (replicate 16 2) 32
        (concat [replicate 32 3, replicate 16 4, replicate 5 5]) =
      ctr_pieces shift_cipher (replicate 16 1) (replicate 16 2) 32
        [replicate 32 3, replicate 16 4, replicate 5 5]"
  using C3_ctr_counter_and_partition[of "replicate 16 1" "replicate 16 2" 32
      "[replicate 32 3, replicate 16 4, replicate 5 5]" shift_cipher]
  by simp

subsection \<open>Block ranges\<close>

lemma wrap_int64_id: "- (2 ^ 63) \<le> x \<Longrightarrow> x < 2 ^ 63 \<Longrightarrow> wrap_int64 x = x"
  by (simp add: wrap_int64_def)

lemma CompressNca_blockSize_eq: "CompressNca_blockSize = 2 ^ 20"
  by (simp add: CompressNca_blockSize_def DefaultBlockSizeEx_def wrap_int64_def)

lemma go_div_nonneg: "0 \<le> a \<Longrightarrow> 0 < b \<Longrightarrow> go_div a b = a div b"
  by (simp add: go_div_def)

lemma upt_chain: "i \<le> j \<Longrightarrow> j \<le> k \<Longrightarrow> [i..<j] @ [j..<k] = [i..<k]"
  using upt_add_eq_append[of i j "k - j"] by simp

lemma concat_upt_chain:
  "(\<forall>i<n. f i \<le> f (Suc i)) \<Longrightarrow>
   concat (map (\<lambda>i. [f i..<f (Suc i)]) [0..<n]) = [f 0..<f n]"
proof (induction n)
  case 0
  then show ?case by simp
next
  case (Suc n)
  have mono: "f 0 \<le> f n"
    using Suc.prems by (induction n) (auto intro: order_trans simp: less_Suc_eq)
  show ?case
    using Suc upt_chain[OF mono, of "f (Suc n)"] by simp
qed

lemma blockCount_value:
  assumes "0x4000 < T" and "T \<le> 0x4000 + (2 ^ 32 - 1) * 2 ^ 20"
  shows "int (unat (CompressNca_blockCount T)) = (T - 0x4000 + 2 ^ 20 - 1) div 2 ^ 20"
proof -
  let ?D = "T - 0x4000"
  let ?q = "(?D + 2 ^ 20 - 1) div (2 ^ 20 :: int)"
  have d: "CompressNca_dataSize T = ?D"
    using assms by (simp add: CompressNca_dataSize_def NcaFullHeaderSize_def wrap_int64_id)
  have w: "wrap_int64 (wrap_int64 (?D + 2 ^ 20) - 1) = ?D + 2 ^ 20 - 1"
    using assms by (simp add: wrap_int64_id)
  have g: "go_div (?D + 2 ^ 20 - 1) (2 ^ 20) = ?q"
    using assms by (intro go_div_nonneg) simp_all
  have q0: "0 \<le> ?q" using assms by simp
  have "?D + 2 ^ 20 - 1 < 2 ^ 32 * 2 ^ 20" using assms by simp
  hence q1: "?q < 2 ^ 32" by (simp add: div_less_iff_less_mult del: power_mult_numeral)
  have "CompressNca_blockCount T = word_of_int ?q"
    by (simp only: CompressNca_blockCount_def d CompressNca_blockSize_eq w g)
  hence "uint (CompressNca_blockCount T) = ?q mod 2 ^ 32"
    by (simp add: uint_word_of_int)
  also have "\<dots> = ?q" using q0 q1 by simp
  finally show ?thesis by simp
qed

lemma ceil_bounds:
  fixes D :: int
  assumes "0 < D"
  shows "((D + 2 ^ 20 - 1) div 2 ^ 20 - 1) * 2 ^ 20 < D" and "D \<le> (D + 2 ^ 20 - 1) div 2 ^ 20 * 2 ^ 20"
proof -
  let ?B = "2 ^ 20 :: int"
  let ?x = "D + ?B - 1"
  have e: "?x = ?x div ?B * ?B + ?x mod ?B" by simp
  have m: "0 \<le> ?x mod ?B" "?x mod ?B < ?B" by simp_all
  show "(?x div ?B - 1) * ?B < D" using e m by (simp add: algebra_simps)
  show "D \<le> ?x div ?B * ?B" using e m by (simp add: algebra_simps)
qed

lemma block_work_value:
  assumes "0x4000 < T" and "T \<le> 0x4000 + (2 ^ 32 - 1) * 2 ^ 20"
    and "int i < (T - 0x4000 + 2 ^ 20 - 1) div 2 ^ 20"
  shows "block_work T (2 ^ 20) i =
           \<lparr>work_index = i, work_offset = 0x4000 + int i * 2 ^ 20,
            work_size = min (0x4000 + (int i + 1) * 2 ^ 20) T - (0x4000 + int i * 2 ^ 20)\<rparr>"
    and "0x4000 + int i * 2 ^ 20 < T"
proof -
  let ?B = "2 ^ 20 :: int"
  let ?D = "T - 0x4000"
  have "0 < ?D" using assms(1) by simp
  from ceil_bounds(1)[OF this] assms(3) have "int i * ?B < ?D"
    by (smt (verit) mult_right_mono zero_le_numeral zero_le_power)
  thus lt: "0x4000 + int i * 2 ^ 20 < T" by simp
  define x where "x = int i * ?B"
  have i0: "0 \<le> x" by (simp add: x_def)
  have xT: "0x4000 + x < T" using lt by (simp add: x_def)
  have Tb: "T \<le> 4503599626338304" using assms(2) by simp
  have w1: "wrap_int64 (int i * ?B) = int i * ?B"
    unfolding x_def[symmetric] using i0 xT Tb by (intro wrap_int64_id) simp_all
  have w2: "wrap_int64 (0x4000 + int i * ?B) = 0x4000 + int i * ?B"
    unfolding x_def[symmetric] using i0 xT Tb by (intro wrap_int64_id) simp_all
  have w3: "wrap_int64 (0x4000 + int i * ?B + ?B) = 0x4000 + int i * ?B + ?B"
    unfolding x_def[symmetric] using i0 xT Tb by (intro wrap_int64_id) simp_all
  have w4: "wrap_int64 (T - (0x4000 + int i * ?B)) = T - (0x4000 + int i * ?B)"
    unfolding x_def[symmetric] using i0 xT Tb by (intro wrap_int64_id) simp_all
  show "block_work T (2 ^ 20) i =
           \<lparr>work_index = i, work_offset = 0x4000 + int i * 2 ^ 20,
            work_size = min (0x4000 + (int i + 1) * 2 ^ 20) T - (0x4000 + int i * 2 ^ 20)\<rparr>"
    unfolding block_work_def NcaFullHeaderSize_def Let_def w1 w2 w3 w4
    by (simp add: min_def algebra_simps)
qed

lemma submitted_ranges:
  assumes "0x4000 < T" and "T \<le> 0x4000 + (2 ^ 32 - 1) * 2 ^ 20"
  shows "concat (map (\<lambda>w. [nat (work_offset w)..<nat (work_offset w + work_size w)])
            (submitted_work T CompressNca_blockSize (CompressNca_blockCount T))) =
         [nat 0x4000..<nat T]"
proof -
  let ?B = "2 ^ 20 :: int"
  let ?n = "unat (CompressNca_blockCount T)"
  define f where "f i = nat (min (0x4000 + int i * ?B) T)" for i
  have n: "int ?n = (T - 0x4000 + 2 ^ 20 - 1) div 2 ^ 20"
    by (rule blockCount_value[OF assms])
  have D: "0 < T - 0x4000" using assms(1) by simp
  have r: "[nat (work_offset (block_work T ?B i))..<
            nat (work_offset (block_work T ?B i) + work_size (block_work T ?B i))] =
           [f i..<f (Suc i)]" if "i < ?n" for i
  proof -
    from that have "int i < int ?n" by (simp only: of_nat_less_iff)
    hence i: "int i < (T - 0x4000 + 2 ^ 20 - 1) div 2 ^ 20" by (simp only: n)
    show ?thesis
      using block_work_value[OF assms i]
      by (simp add: f_def min_def algebra_simps)
  qed
  have "map (\<lambda>i. [nat (work_offset (block_work T ?B i))..<
            nat (work_offset (block_work T ?B i) + work_size (block_work T ?B i))]) [0..<?n] =
        map (\<lambda>i. [f i..<f (Suc i)]) [0..<?n]"
  proof (rule map_cong[OF refl])
    fix i assume "i \<in> set [0..<?n]"
    hence "i < ?n" by simp
    thus "[nat (work_offset (block_work T ?B i))..<
            nat (work_offset (block_work T ?B i) + work_size (block_work T ?B i))] =
          [f i..<f (Suc i)]" by (rule r)
  qed
  hence "map (\<lambda>w. [nat (work_offset w)..<nat (work_offset w + work_size w)])
            (submitted_work T CompressNca_blockSize (CompressNca_blockCount T)) =
        map (\<lambda>i. [f i..<f (Suc i)]) [0..<?n]"
    by (simp only: submitted_work_def CompressNca_blockSize_eq map_map comp_def)
  moreover have mono: "f i \<le> f (Suc i)" for i
  proof -
    have "0x4000 + int i * ?B \<le> 0x4000 + int (Suc i) * ?B" by simp
    hence "min (0x4000 + int i * ?B) T \<le> min (0x4000 + int (Suc i) * ?B) T"
      by (rule min.mono) simp
    thus ?thesis unfolding f_def by (rule nat_mono)
  qed
  have "concat (map (\<lambda>i. [f i..<f (Suc i)]) [0..<?n]) = [f 0..<f ?n]"
    by (rule concat_upt_chain) (simp add: mono)
  moreover note this
  moreover have "f 0 = nat 0x4000" using assms(1) by (simp add: f_def)
  moreover have "f ?n = nat T"
  proof -
    define q where "q = (T - 0x4000 + 2 ^ 20 - 1) div (2 ^ 20 :: int)"
    have cb: "T - 0x4000 \<le> q * 2 ^ 20" unfolding q_def by (rule ceil_bounds(2)[OF D])
    have "f ?n = nat (min (0x4000 + q * ?B) T)" unfolding f_def q_def by (simp only: n)
    also have "\<dots> = nat T"
    proof -
      have "T \<le> 0x4000 + q * ?B" using cb by simp
      hence "min (0x4000 + q * ?B) T = T" by (rule min_absorb2)
      thus ?thesis by (simp only:)
    qed
    finally show ?thesis .
  qed
  ultimately show ?thesis by simp
qed

text \<open>
  C1, as amended. For a total size \<open>T\<close> with \<open>0x4000 < T \<le> 0x4000 + (2^32 - 1) * 2^20\<close>
  (the block count then fits the 32-bit field in which \<open>CompressNca\<close> keeps it), the block
  size is \<open>2^20\<close>, the block count is the ceiling of \<open>(T - 0x4000) / 2^20\<close>, block \<open>i\<close> is
  submitted with offset \<open>0x4000 + i * 2^20\<close> and the size that ends it at
  \<open>min (0x4000 + (i + 1) * 2^20) T\<close>, and the byte positions of the submitted blocks,
  in index order, are exactly the positions \<open>0x4000, ..., T - 1\<close> in order: no gap and
  no overlap.
\<close>

theorem C1_block_ranges:
  assumes "0x4000 < T" and "T \<le> 0x4000 + (2 ^ 32 - 1) * 2 ^ 20"
  shows "CompressNca_blockSize = 2 ^ 20
       \<and> int (unat (CompressNca_blockCount T)) = (T - 0x4000 + 2 ^ 20 - 1) div 2 ^ 20
       \<and> (int (unat (CompressNca_blockCount T)) - 1) * 2 ^ 20 < T - 0x4000
       \<and> T - 0x4000 \<le> int (unat (CompressNca_blockCount T)) * 2 ^ 20
       \<and> (\<forall>i < unat (CompressNca_blockCount T).
            block_work T CompressNca_blockSize i =
              \<lparr>work_index = i, work_offset = 0x4000 + int i * 2 ^ 20,
               work_size = min (0x4000 + (int i + 1) * 2 ^ 20) T - (0x4000 + int i * 2 ^ 20)\<rparr>)
       \<and> concat (map (\<lambda>w. [nat (work_offset w)..<nat (work_offset w + work_size w)])
            (submitted_work T CompressNca_blockSize (CompressNca_blockCount T))) =
          [nat 0x4000..<nat T]"
proof -
  have n: "int (unat (CompressNca_blockCount T)) = (T - 0x4000 + 2 ^ 20 - 1) div 2 ^ 20"
    by (rule blockCount_value[OF assms])
  have D: "0 < T - 0x4000" using assms(1) by simp
  have w: "block_work T CompressNca_blockSize i =
              \<lparr>work_index = i, work_offset = 0x4000 + int i * 2 ^ 20,
               work_size = min (0x4000 + (int i + 1) * 2 ^ 20) T - (0x4000 + int i * 2 ^ 20)\<rparr>"
    if "i < unat (CompressNca_blockCount T)" for i
  proof -
    from that have "int i < int (unat (CompressNca_blockCount T))"
      by (simp only: of_nat_less_iff)
    hence "int i < (T - 0x4000 + 2 ^ 20 - 1) div 2 ^ 20" by (simp only: n)
    from block_work_value(1)[OF assms this] show ?thesis
      by (simp only: CompressNca_blockSize_eq)
  qed
  show ?thesis
    using CompressNca_blockSize_eq n ceil_bounds[OF D] w submitted_ranges[OF assms]
    unfolding n by blast
qed

text \<open>The theorem at a total size of 4 MiB: four blocks, the last one shorter.\<close>

theorem C1_witness:
  "(0x4000::int) < 4194304 \<and> (4194304::int) \<le> 0x4000 + (2 ^ 32 - 1) * 2 ^ 20
   \<and> CompressNca_blockCount 4194304 = 4
   \<and> block_work 4194304 CompressNca_blockSize 3 =
        \<lparr>work_index = 3, work_offset = 3162112, work_size = 1032192\<rparr>
   \<and> concat (map (\<lambda>w. [nat (work_offset w)..<nat (work_offset w + work_size w)])
            (submitted_work 4194304 CompressNca_blockSize (CompressNca_blockCount 4194304))) =
          [nat 0x4000..<nat 4194304]"
proof -
  have a: "(0x4000::int) < 4194304" "(4194304::int) \<le> 0x4000 + (2 ^ 32 - 1) * 2 ^ 20"
    by simp_all
  have c: "CompressNca_blockCount 4194304 = 4"
    by (simp add: CompressNca_blockCount_def CompressNca_dataSize_def CompressNca_blockSize_eq
        NcaFullHeaderSize_def wrap_int64_def go_div_def)
  have lt: "(3::nat) < unat (CompressNca_blockCount 4194304)" by (simp add: c)
  note t = C1_block_ranges[OF a]
  from t lt have "block_work 4194304 CompressNca_blockSize 3 =
      \<lparr>work_index = 3, work_offset = 0x4000 + int 3 * 2 ^ 20,
       work_size = min (0x4000 + (int 3 + 1) * 2 ^ 20) 4194304 - (0x4000 + int 3 * 2 ^ 20)\<rparr>"
    by blast
  hence w: "block_work 4194304 CompressNca_blockSize 3 =
        \<lparr>work_index = 3, work_offset = 3162112, work_size = 1032192\<rparr>"
    by simp
  from t have r: "concat (map (\<lambda>w. [nat (work_offset w)..<nat (work_offset w + work_size w)])
            (submitted_work 4194304 CompressNca_blockSize (CompressNca_blockCount 4194304))) =
          [nat 0x4000..<nat 4194304]"
    by blast
  from a c w r show ?thesis by blast
qed

text \<open>
  C1 as stated fails at \<open>T = 0x4000 + 2^52\<close>: the ceiling is \<open>2^32\<close>, the conversion to
  \<open>uint32\<close> makes the block count 0, and no block is submitted.
\<close>

theorem C1_counterexample:
  "(0x4000::int) < 0x4000 + 2 ^ 52
   \<and> CompressNca_blockCount (0x4000 + 2 ^ 52) = 0
   \<and> ((0x4000 + 2 ^ 52) - 0x4000 + 2 ^ 20 - 1) div 2 ^ 20 = (2 ^ 32 :: int)
   \<and> concat (map (\<lambda>w. [nat (work_offset w)..<nat (work_offset w + work_size w)])
            (submitted_work (0x4000 + 2 ^ 52) CompressNca_blockSize
               (CompressNca_blockCount (0x4000 + 2 ^ 52)))) \<noteq>
          [nat 0x4000..<nat (0x4000 + 2 ^ 52)]"
proof -
  have c: "CompressNca_blockCount (0x4000 + 2 ^ 52) = 0"
    by (simp add: CompressNca_blockCount_def CompressNca_dataSize_def CompressNca_blockSize_eq
        NcaFullHeaderSize_def wrap_int64_def go_div_def)
  have e: "concat (map (\<lambda>w. [nat (work_offset w)..<nat (work_offset w + work_size w)])
            (submitted_work (0x4000 + 2 ^ 52) CompressNca_blockSize
               (CompressNca_blockCount (0x4000 + 2 ^ 52)))) = []"
    unfolding c by (simp add: submitted_work_def)
  have lt: "nat 0x4000 < nat (0x4000 + 2 ^ 52)" by simp
  have n: "[nat 0x4000..<nat (0x4000 + 2 ^ 52)] \<noteq> []"
    using lt by (simp only: upt_eq_Nil_conv) simp
  have a: "(0x4000::int) < 0x4000 + 2 ^ 52"
    "((0x4000 + 2 ^ 52) - 0x4000 + 2 ^ 20 - 1) div 2 ^ 20 = (2 ^ 32 :: int)" by simp_all
  have ne: "concat (map (\<lambda>w. [nat (work_offset w)..<nat (work_offset w + work_size w)])
            (submitted_work (0x4000 + 2 ^ 52) CompressNca_blockSize
               (CompressNca_blockCount (0x4000 + 2 ^ 52)))) \<noteq>
          [nat 0x4000..<nat (0x4000 + 2 ^ 52)]"
    unfolding e using n by (rule not_sym)
  from a c ne show ?thesis by blast
qed

subsection \<open>The smaller of the compressed and the raw block\<close>

lemma collect_results_Inr:
  "collect_results rs = Inr ds \<Longrightarrow>
   length ds = length rs \<and> (\<forall>i < length rs. rs ! i = Inr (ds ! i))"
proof (induction rs arbitrary: ds)
  case Nil
  then show ?case by simp
next
  case (Cons r rs)
  from Cons.prems obtain d ds' where r: "r = Inr d" and c: "collect_results rs = Inr ds'"
    and ds: "ds = d # ds'"
    by (auto split: sum.splits)
  from Cons.IH[OF c] show ?case
    by (auto simp: r ds nth_Cons split: nat.splits)
qed

lemma process_block_keep_smaller:
  "process_block A zstd r B sections level w =
     (case raw_block A r B sections w of
        Inl e \<Rightarrow> Inl e
      | Inr raw \<Rightarrow>
          Inr (if length (zstd raw level) < length raw then zstd raw level else raw))"
  by (simp add: process_block_def Let_def split: sum.splits)

text \<open>
  C2. When \<open>compressBlocks\<close> returns its results, there is one per block, and the result
  of block \<open>i\<close> is the compressed buffer if that is strictly shorter than the raw
  (decrypted) block and the raw block otherwise; so its length is the compressed length
  when that is smaller and the raw length otherwise, never more than the raw length.
  (\<open>CompressNca\<close> writes these results to the output in index order.)
\<close>

theorem C2_keep_smaller:
  assumes "compressBlocks A zstd r T B n sections level = Inr results"
  shows "length results = unat n
       \<and> (\<forall>i < unat n.
            case raw_block A r B sections (block_work T B i) of
              Inr raw \<Rightarrow>
                results ! i = (if length (zstd raw level) < length raw then zstd raw level else raw)
                \<and> length (results ! i) =
                    (if length (zstd raw level) < length raw then length (zstd raw level)
                     else length raw)
                \<and> length (results ! i) \<le> length raw
            | Inl e \<Rightarrow> False)"
proof -
  let ?rs = "map (process_block A zstd r B sections level) (submitted_work T B n)"
  from assms have c: "collect_results ?rs = Inr results"
    by (simp add: compressBlocks_def)
  have len: "length ?rs = unat n" by (simp add: submitted_work_def)
  from collect_results_Inr[OF c] len
  have l: "length results = unat n"
    and nth: "\<And>i. i < unat n \<Longrightarrow> ?rs ! i = Inr (results ! i)"
    by simp_all
  have "case raw_block A r B sections (block_work T B i) of
              Inr raw \<Rightarrow>
                results ! i = (if length (zstd raw level) < length raw then zstd raw level else raw)
                \<and> length (results ! i) =
                    (if length (zstd raw level) < length raw then length (zstd raw level)
                     else length raw)
                \<and> length (results ! i) \<le> length raw
            | Inl e \<Rightarrow> False" if i: "i < unat n" for i
  proof -
    have "?rs ! i = process_block A zstd r B sections level (block_work T B i)"
      using i by (simp add: submitted_work_def)
    with nth[OF i] have "process_block A zstd r B sections level (block_work T B i) = Inr (results ! i)"
      by simp
    then show ?thesis
      by (auto simp: process_block_keep_smaller split: sum.splits if_splits)
  qed
  with l show ?thesis by blast
qed

lemma sample_compressBlocks:
  "compressBlocks shift_cipher take2_compressor sample_file 0x4003 CompressNca_blockSize 1 [] 18
     = Inr [[1, 2]]"
proof -
  have w: "block_work 0x4003 CompressNca_blockSize 0 =
             \<lparr>work_index = 0, work_offset = 0x4000, work_size = 3\<rparr>"
    by (simp add: block_work_def CompressNca_blockSize_eq NcaFullHeaderSize_def wrap_int64_def)
  have r: "raw_block shift_cipher sample_file CompressNca_blockSize []
             \<lparr>work_index = 0, work_offset = 0x4000, work_size = 3\<rparr> = Inr [1, 2, 3]"
    by (simp add: raw_block_def CompressNca_blockSize_eq ReadAt_def sample_file_def
        decryptChunk_def)
  show ?thesis
    by (simp add: compressBlocks_def submitted_work_def w process_block_def r
        take2_compressor_def)
qed

text \<open>The theorem at the sample file: one block of three bytes, compressed to two.\<close>

theorem C2_witness:
  "compressBlocks shift_cipher take2_compressor sample_file 0x4003 CompressNca_blockSize 1 [] 18
     = Inr [[1, 2]]
   \<and> raw_block shift_cipher sample_file CompressNca_blockSize []
        (block_work 0x4003 CompressNca_blockSize 0) = Inr [1, 2, 3]
   \<and> length [[1, 2 :: byte]] = unat (1 :: uint32)
   \<and> length ([[1, 2 :: byte]] ! 0) \<le> length [1, 2, 3 :: byte]"
proof -
  have r: "raw_block shift_cipher sample_file CompressNca_blockSize []
        (block_work 0x4003 CompressNca_blockSize 0) = Inr [1, 2, 3]"
    by (simp add: raw_block_def CompressNca_blockSize_eq ReadAt_def sample_file_def
        decryptChunk_def block_work_def NcaFullHeaderSize_def wrap_int64_def)
  from C2_keep_smaller[OF sample_compressBlocks] r sample_compressBlocks
  show ?thesis by simp
qed

subsection \<open>The BKTR parser and the planner: auxiliary facts\<close>

lemma length_buildBaseIV [simp]: "length (buildBaseIV c) = 16"
  by (simp add: buildBaseIV_def)

lemma copy16_id: "length src = 16 \<Longrightarrow> copy16 src = src"
  by (simp add: copy16_def)




lemma map2_xor_zero: "length xs \<le> n \<Longrightarrow> map2 (XOR) xs (replicate n (0::byte)) = xs"
proof (induction xs arbitrary: n)
  case Nil
  then show ?case by simp
next
  case (Cons x xs)
  then obtain m where "n = Suc m" by (cases n) auto
  with Cons show ?case by simp
qed

lemma ctr_xor_zero: "ctr_xor (\<lambda>c. replicate 16 0) c src = src"
proof (induction "\<lambda>c::bytes. replicate 16 (0::byte)" c src rule: ctr_xor.induct)
  case (1 ctr src)
  show ?case
  proof (cases "src = []")
    case True
    then show ?thesis by (subst ctr_xor.simps) simp
  next
    case False
    with 1 show ?thesis
      by (subst ctr_xor.simps) (simp add: map2_xor_zero)
  qed
qed

lemma XORKeyStream_zero: "XORKeyStream zero_cipher st src = src"
  by (simp add: XORKeyStream_def zero_cipher_def ctr_xor_zero)

lemma read_bktr_data_zero:
  assumes "length k = 16" and "0 \<le> so + sint (BktrOffset bh)" and "so + sint (BktrOffset bh) < 2 ^ 63"
    and "unat (BktrSize bh) < 2 ^ 63"
    and "take (unat (BktrSize bh)) (drop (nat (so + sint (BktrOffset bh))) r) = d"
    and "length d = unat (BktrSize bh)"
  shows "read_bktr_data zero_cipher r so bh k iv = Inr d"
proof -
  have w: "wrap_int64 (so + sint (BktrOffset bh)) = so + sint (BktrOffset bh)"
    using assms(2,3) by (simp add: wrap_int64_def)
  have n: "NewCTRStream k iv (so + sint (BktrOffset bh)) =
        Inr \<lparr>stream_key = k, stream_ctr = write_at (copy16 iv) 8
              (BigEndian_PutUint64 (word_of_int ((so + sint (BktrOffset bh)) div 16)))\<rparr>"
    using assms(1) by (simp add: NewCTRStream_def getCachedCipher_def aes_NewCipher_def Let_def)
  show ?thesis
    unfolding read_bktr_data_def Let_def w
    using assms(2,4,5,6) by (simp add: ReadAt_def n XORKeyStream_zero)
qed

lemma sample_offsets:
  "ucast (MediaStartOffset sample_entry) * MediaSize = (0x8000 :: uint64)"
  "ucast (MediaEndOffset sample_entry) * MediaSize = (0x10000 :: uint64)"
  "\<not> (MediaStartOffset sample_entry = 0 \<and> MediaEndOffset sample_entry = 0)"
  by (simp_all add: sample_entry_def MediaSize_def)

lemma sample_read:
  assumes "unat n = length d" and "d \<noteq> []" and "length d < 2 ^ 32"
  shows "read_bktr_data zero_cipher (file_with_index d) 0x8000 (sample_bktr n) sample_key iv = Inr d"
proof -
  show ?thesis
    by (rule read_bktr_data_zero)
      (use assms in \<open>simp_all add: sample_key_def file_with_index_def sample_bktr_def\<close>)
qed

lemma length_samples:
  "length index_two_buckets = 0x4040" "length index_late_violation = 0x4030"
  "length index_200_buckets = 16"
  by (simp_all add: index_two_buckets_def index_late_violation_def index_200_buckets_def)

lemma parse_two_buckets: "parse_bktr_data index_two_buckets =
  [\<lparr>bucket_Padding = 0, EntryCount = 1, EndOffset = 0x3000,
     Entries = [\<lparr>VirtualOffset = 0x1000, entry_Size = 0x2000, entry_Padding = 0, Ctr = 7\<rparr>]\<rparr>,
   \<lparr>bucket_Padding = 0, EntryCount = 1, EndOffset = 0x1000,
     Entries = [\<lparr>VirtualOffset = 0, entry_Size = 0x1000, entry_Padding = 0, Ctr = 9\<rparr>]\<rparr>]"
  by (simp add: parse_bktr_data_def index_two_buckets_def subslice_def LittleEndian_Uint32_def
      LittleEndian_Uint64_def bucket_loop.simps entry_loop.simps parse_entry_def Let_def)




lemma foldl_nested:
  "foldl (\<lambda>st b. foldl f st (g b)) s bs = foldl f s (concat (map g bs))"
  by (induction bs arbitrary: s) simp_all

lemma SetBktrCounter_eq:
  assumes "length iv = 16"
  shows "SetBktrCounter iv c = take 4 iv @ be32 c @ drop 8 iv"
proof (rule nth_equalityI)
  show "length (SetBktrCounter iv c) = length (take 4 iv @ be32 c @ drop 8 iv)"
    using assms by (simp add: SetBktrCounter_def Let_def be32_def)
next
  fix i assume "i < length (SetBktrCounter iv c)"
  hence i: "i < 16" using assms by (simp add: SetBktrCounter_def Let_def)
  consider "i < 4" | "i = 4" | "i = 5" | "i = 6" | "i = 7" | "8 \<le> i" by linarith
  then show "SetBktrCounter iv c ! i = (take 4 iv @ be32 c @ drop 8 iv) ! i"
    using assms i
    by cases (auto simp: SetBktrCounter_def Let_def be32_def copy16_id nth_append)
qed

lemma length_SetBktrCounter [simp]: "length (SetBktrCounter iv c) = 16"
  by (simp add: SetBktrCounter_def Let_def)

lemma entry_step_eq:
  "bktr_entry_step (Some k) so iv (secs, le) e =
     (if entry_Size e = 0 then (secs, le)
      else (secs @ [\<lparr>sec_Offset = so + VirtualOffset e, sec_Size = entry_Size e,
                       sec_CryptoType = CryptoTypeCTR, sec_Padding = 0,
                       sec_CryptoKey = copy16 k,
                       sec_CryptoCounter = SetBktrCounter iv (Ctr e)\<rparr>],
            max le (entry_end so e)))"
  by (auto simp: bktr_entry_step_def Let_def section_key_def entry_end_def copy16_id max_def
      not_less intro: order.antisym less_imp_le)

lemma entry_steps:
  "foldl (bktr_entry_step (Some k) so iv) (secs, le) es =
     (secs @ map (\<lambda>e. \<lparr>sec_Offset = so + VirtualOffset e, sec_Size = entry_Size e,
                        sec_CryptoType = CryptoTypeCTR, sec_Padding = 0,
                        sec_CryptoKey = copy16 k,
                        sec_CryptoCounter = SetBktrCounter iv (Ctr e)\<rparr>)
              (filter (\<lambda>e. entry_Size e \<noteq> 0) es),
      foldl max le (map (entry_end so) (filter (\<lambda>e. entry_Size e \<noteq> 0) es)))"
proof (induction es arbitrary: secs le)
  case Nil
  then show ?case by simp
next
  case (Cons e es)
  show ?case
    by (simp add: entry_step_eq Cons.IH)
qed

lemma foldl_max_Max:
  fixes le :: uint64
  shows "foldl max le xs = Max (insert le (set xs))"
proof -
  have "foldl max le xs = fold max xs le"
    by (simp add: foldl_conv_fold max.commute)
  also have "\<dots> = Max (set (le # xs))" by (rule Max.set_eq_fold[symmetric])
  finally show ?thesis by simp
qed

lemma foldl_max_zero:
  fixes xs :: "uint64 list"
  assumes "xs \<noteq> []"
  shows "foldl max 0 xs = Max (set xs)"
proof -
  have "Max (insert 0 (set xs)) = max 0 (Max (set xs))"
    using assms by (intro Max_insert) simp_all
  then show ?thesis by (simp add: foldl_max_Max max_def)
qed

lemma bktr_sections_eq:
  assumes "length k = 16" and "length iv = 16" and "nonzero_entries buckets \<noteq> []"
  shows "bktr_sections (Some k) so se iv buckets =
         map (bktr_entry_section k so iv) (nonzero_entries buckets)
         @ (if Max (entry_end so ` set (nonzero_entries buckets)) < se
            then [tail_section k (Max (entry_end so ` set (nonzero_entries buckets))) se iv]
            else [])"
proof -
  have m: "foldl max 0 (map (entry_end so) (nonzero_entries buckets)) =
           Max (entry_end so ` set (nonzero_entries buckets))"
    using foldl_max_zero[of "map (entry_end so) (nonzero_entries buckets)"] assms(3) by simp
  have s: "(\<lambda>e. \<lparr>sec_Offset = so + VirtualOffset e, sec_Size = entry_Size e,
                        sec_CryptoType = CryptoTypeCTR, sec_Padding = 0,
                        sec_CryptoKey = copy16 k,
                        sec_CryptoCounter = SetBktrCounter iv (Ctr e)\<rparr>) =
           bktr_entry_section k so iv"
    using assms(1,2)
    by (simp add: fun_eq_iff bktr_entry_section_def copy16_id SetBktrCounter_eq CryptoTypeCTR_def)
  show ?thesis
    unfolding bktr_sections_def foldl_nested entry_steps s nonzero_entries_def[symmetric] m
    using assms(1,2)
    by (simp add: tail_section_def section_key_def copy16_id CryptoTypeCTR_def)
qed

lemma read_ok_key_length:
  "read_bktr_data A r so bh k iv = Inr d \<Longrightarrow> length k = 16"
  by (auto simp: read_bktr_data_def Let_def NewCTRStream_def getCachedCipher_def
      split: if_splits prod.splits sum.splits)

lemma parse_ok_key_length:
  "ParseBktrSubsectionBuckets A r so (Some bh) (Some k) iv = Inr buckets \<Longrightarrow> buckets \<noteq> [] \<Longrightarrow>
   length k = 16"
  by (auto simp: ParseBktrSubsectionBuckets_def dest: read_ok_key_length
      split: if_splits sum.splits)

lemma entry_sections_bktr:
  assumes "\<not> (MediaStartOffset entry = 0 \<and> MediaEndOffset entry = 0)"
    and "CryptoType fs = CryptoTypeBKTR" and "BktrSubsection fs = Some bh" and "BktrSize bh > 0"
  shows "entry_sections A r tk entry fs =
     (case parseBktrSections A r tk (ucast (MediaStartOffset entry) * MediaSize)
             (ucast (MediaEndOffset entry) * MediaSize) (Some bh)
             (buildBaseIV (CryptoCounter fs)) of
        Inl e \<Rightarrow> Inl e
      | Inr secs \<Rightarrow> if secs = [] then Inr [single_section tk entry fs] else Inr secs)"
  using assms
  by (simp add: entry_sections_def Let_def single_section_def MediaSize_def copy16_id
      split: sum.splits)

lemma entry_sections_fan_out:
  assumes "\<not> (MediaStartOffset entry = 0 \<and> MediaEndOffset entry = 0)"
    and "CryptoType fs = CryptoTypeBKTR" and "BktrSubsection fs = Some bh" and "BktrSize bh > 0"
    and "ParseBktrSubsectionBuckets A r (sint (ucast (MediaStartOffset entry) * MediaSize :: uint64))
           (Some bh) (Some title_key) (buildBaseIV (CryptoCounter fs)) = Inr buckets"
    and "nonzero_entries buckets \<noteq> []"
  shows "entry_sections A r (Some title_key) entry fs =
           Inr (map (bktr_entry_section title_key (ucast (MediaStartOffset entry) * MediaSize)
                       (buildBaseIV (CryptoCounter fs)))
                  (nonzero_entries buckets)
                @ (if Max (entry_end (ucast (MediaStartOffset entry) * MediaSize)
                             ` set (nonzero_entries buckets))
                      < ucast (MediaEndOffset entry) * MediaSize
                   then [tail_section title_key
                           (Max (entry_end (ucast (MediaStartOffset entry) * MediaSize)
                                   ` set (nonzero_entries buckets)))
                           (ucast (MediaEndOffset entry) * MediaSize)
                           (buildBaseIV (CryptoCounter fs))]
                   else []))"
proof -
  let ?so = "ucast (MediaStartOffset entry) * MediaSize :: uint64"
  let ?se = "ucast (MediaEndOffset entry) * MediaSize :: uint64"
  let ?iv = "buildBaseIV (CryptoCounter fs)"
  from assms(6) have ne: "buckets \<noteq> []" by (auto simp: nonzero_entries_def)
  have k: "length title_key = 16" by (rule parse_ok_key_length[OF assms(5) ne])
  have p: "parseBktrSections A r (Some title_key) ?so ?se (Some bh) ?iv =
           Inr (bktr_sections (Some title_key) ?so ?se ?iv buckets)"
    using assms(5) ne by (simp add: parseBktrSections_def)
  define secs where "secs =
           map (bktr_entry_section title_key ?so ?iv) (nonzero_entries buckets)
           @ (if Max (entry_end ?so ` set (nonzero_entries buckets)) < ?se
              then [tail_section title_key (Max (entry_end ?so ` set (nonzero_entries buckets)))
                      ?se ?iv]
              else [])"
  have eq: "bktr_sections (Some title_key) ?so ?se ?iv buckets = secs"
    unfolding secs_def by (rule bktr_sections_eq[OF k length_buildBaseIV assms(6)])
  have ne2: "secs \<noteq> []" using assms(6) by (simp add: secs_def)
  have "entry_sections A r (Some title_key) entry fs =
     (case parseBktrSections A r (Some title_key) ?so ?se (Some bh) ?iv of
        Inl e \<Rightarrow> Inl e
      | Inr secs \<Rightarrow> if secs = [] then Inr [single_section (Some title_key) entry fs] else Inr secs)"
    by (rule entry_sections_bktr[OF assms(1-4)])
  also have "\<dots> = Inr secs"
    unfolding p eq using ne2 by simp
  finally show ?thesis unfolding secs_def .
qed

lemma replicate_8: "replicate 8 (0::byte) = [0, 0, 0, 0, 0, 0, 0, 0]"
  by (simp add: eval_nat_numeral)

lemma sample_fs_fields:
  "CryptoType (sample_fs n) = CryptoTypeBKTR"
  "BktrSubsection (sample_fs n) = Some (sample_bktr n)"
  "buildBaseIV (CryptoCounter (sample_fs n)) = sample_iv"
  "BktrSize (sample_bktr n) = n"
  by (simp_all add: sample_fs_def CryptoTypeBKTR_def buildBaseIV_def sample_iv_def replicate_8
      sample_bktr_def)

lemma sample_parse:
  assumes "unat n = length d" and "d \<noteq> []" and "length d < 2 ^ 32"
  shows "ParseBktrSubsectionBuckets zero_cipher (file_with_index d)
           (sint (ucast (MediaStartOffset sample_entry) * MediaSize :: uint64))
           (Some (sample_bktr n)) (Some sample_key) sample_iv = Inr (parse_bktr_data d)"
proof -
  have z: "n \<noteq> 0" using assms by auto
  have s: "sint (0x8000 :: uint64) = 0x8000" by simp
  show ?thesis
    unfolding sample_offsets s
    using sample_read[OF assms] z
    by (simp add: ParseBktrSubsectionBuckets_def sample_fs_fields sample_iv_def)
qed

lemma nonzero_two_buckets:
  "nonzero_entries (parse_bktr_data index_two_buckets) =
     [\<lparr>VirtualOffset = 0x1000, entry_Size = 0x2000, entry_Padding = 0, Ctr = 7\<rparr>,
      \<lparr>VirtualOffset = 0, entry_Size = 0x1000, entry_Padding = 0, Ctr = 9\<rparr>]"
  by (simp add: parse_two_buckets nonzero_entries_def)

lemma u64_len_two: "unat (0x4040 :: uint64) = length index_two_buckets"
  by (simp add: length_samples)

lemma ne_two: "index_two_buckets \<noteq> []" "length index_two_buckets < 2 ^ 32"
  by (simp_all add: index_two_buckets_def)

lemma sample_two_buckets_sections:
  "entry_sections zero_cipher (file_with_index index_two_buckets) (Some sample_key)
     sample_entry (sample_fs 0x4040) =
   Inr [bktr_entry_section sample_key 0x8000 sample_iv
          \<lparr>VirtualOffset = 0x1000, entry_Size = 0x2000, entry_Padding = 0, Ctr = 7\<rparr>,
        bktr_entry_section sample_key 0x8000 sample_iv
          \<lparr>VirtualOffset = 0, entry_Size = 0x1000, entry_Padding = 0, Ctr = 9\<rparr>,
        tail_section sample_key 0xB000 0x10000 sample_iv]"
proof -
  have p: "ParseBktrSubsectionBuckets zero_cipher (file_with_index index_two_buckets)
           (sint (ucast (MediaStartOffset sample_entry) * MediaSize :: uint64))
           (Some (sample_bktr 0x4040)) (Some sample_key)
           (buildBaseIV (CryptoCounter (sample_fs 0x4040))) =
           Inr (parse_bktr_data index_two_buckets)"
    unfolding sample_fs_fields by (rule sample_parse[OF u64_len_two ne_two])
  have nz: "nonzero_entries (parse_bktr_data index_two_buckets) \<noteq> []"
    by (simp add: nonzero_two_buckets)
  have g: "BktrSize (sample_bktr 0x4040) > 0" by (simp add: sample_fs_fields)
  show ?thesis
    unfolding entry_sections_fan_out[OF sample_offsets(3) sample_fs_fields(1,2) g p nz]
    by (simp add: nonzero_two_buckets sample_offsets sample_fs_fields entry_end_def)
qed

subsection \<open>The fan-out of a BKTR section\<close>

text \<open>
  C4, as amended. For a non-vacant section table entry whose FS header has crypto type
  BKTR and a subsection header of size above 0, when the subsection index parses to
  buckets with at least one entry of non-zero size, the planner emits for this entry,
  in order, one section per non-zero entry, with offset \<open>section_offset + virtual_offset\<close>,
  the entry's size, crypto type 3 (CTR), the title key, and the base counter with its
  bytes 4 to 7 replaced by the big-endian counter value (\<open>bktr_entry_section\<close>); and then,
  if the greatest end among these entries is below the section's end, a tail section
  from that greatest end to the section's end, with crypto type 3 and the base counter.
\<close>

theorem C4_bktr_fan_out:
  assumes "\<not> (MediaStartOffset entry = 0 \<and> MediaEndOffset entry = 0)"
    and "CryptoType fs = CryptoTypeBKTR" and "BktrSubsection fs = Some bh" and "BktrSize bh > 0"
    and "ParseBktrSubsectionBuckets A r (sint (ucast (MediaStartOffset entry) * MediaSize :: uint64))
           (Some bh) (Some title_key) (buildBaseIV (CryptoCounter fs)) = Inr buckets"
    and "nonzero_entries buckets \<noteq> []"
  shows "entry_sections A r (Some title_key) entry fs =
           Inr (map (bktr_entry_section title_key (ucast (MediaStartOffset entry) * MediaSize)
                       (buildBaseIV (CryptoCounter fs)))
                  (nonzero_entries buckets)
                @ (if Max (entry_end (ucast (MediaStartOffset entry) * MediaSize)
                             ` set (nonzero_entries buckets))
                      < ucast (MediaEndOffset entry) * MediaSize
                   then [tail_section title_key
                           (Max (entry_end (ucast (MediaStartOffset entry) * MediaSize)
                                   ` set (nonzero_entries buckets)))
                           (ucast (MediaEndOffset entry) * MediaSize)
                           (buildBaseIV (CryptoCounter fs))]
                   else []))"
  using assms by (rule entry_sections_fan_out)

text \<open>The theorem at the sample index of two buckets.\<close>

theorem C4_witness:
  "\<not> (MediaStartOffset sample_entry = 0 \<and> MediaEndOffset sample_entry = 0)
   \<and> CryptoType (sample_fs 0x4040) = CryptoTypeBKTR
   \<and> BktrSize (sample_bktr 0x4040) > 0
   \<and> nonzero_entries (parse_bktr_data index_two_buckets) \<noteq> []
   \<and> entry_sections zero_cipher (file_with_index index_two_buckets) (Some sample_key)
        sample_entry (sample_fs 0x4040) =
      Inr [bktr_entry_section sample_key 0x8000 sample_iv
             \<lparr>VirtualOffset = 0x1000, entry_Size = 0x2000, entry_Padding = 0, Ctr = 7\<rparr>,
           bktr_entry_section sample_key 0x8000 sample_iv
             \<lparr>VirtualOffset = 0, entry_Size = 0x1000, entry_Padding = 0, Ctr = 9\<rparr>,
           tail_section sample_key 0xB000 0x10000 sample_iv]"
proof -
  have p: "ParseBktrSubsectionBuckets zero_cipher (file_with_index index_two_buckets)
           (sint (ucast (MediaStartOffset sample_entry) * MediaSize :: uint64))
           (Some (sample_bktr 0x4040)) (Some sample_key)
           (buildBaseIV (CryptoCounter (sample_fs 0x4040))) =
           Inr (parse_bktr_data index_two_buckets)"
    unfolding sample_fs_fields by (rule sample_parse[OF u64_len_two ne_two])
  have nz: "nonzero_entries (parse_bktr_data index_two_buckets) \<noteq> []"
    by (simp add: nonzero_two_buckets)
  have g: "BktrSize (sample_bktr 0x4040) > 0" by (simp add: sample_fs_fields)
  from C4_bktr_fan_out[OF sample_offsets(3) sample_fs_fields(1,2) g p nz]
  have "entry_sections zero_cipher (file_with_index index_two_buckets) (Some sample_key)
        sample_entry (sample_fs 0x4040) =
      Inr [bktr_entry_section sample_key 0x8000 sample_iv
             \<lparr>VirtualOffset = 0x1000, entry_Size = 0x2000, entry_Padding = 0, Ctr = 7\<rparr>,
           bktr_entry_section sample_key 0x8000 sample_iv
             \<lparr>VirtualOffset = 0, entry_Size = 0x1000, entry_Padding = 0, Ctr = 9\<rparr>,
           tail_section sample_key 0xB000 0x10000 sample_iv]"
    by (simp add: nonzero_two_buckets sample_offsets sample_fs_fields entry_end_def)
  with sample_offsets(3) sample_fs_fields(1) g nz show ?thesis by blast
qed

text \<open>
  C4 as stated fails at the same index: the last emitted entry ends at 0x9000, below
  the section's end 0x10000, and no tail section from 0x9000 is emitted; the tail starts
  at 0xB000, the end of the first entry, which is the greatest.
\<close>

theorem C4_counterexample:
  "entry_sections zero_cipher (file_with_index index_two_buckets) (Some sample_key)
     sample_entry (sample_fs 0x4040) =
   Inr [bktr_entry_section sample_key 0x8000 sample_iv
          \<lparr>VirtualOffset = 0x1000, entry_Size = 0x2000, entry_Padding = 0, Ctr = 7\<rparr>,
        bktr_entry_section sample_key 0x8000 sample_iv
          \<lparr>VirtualOffset = 0, entry_Size = 0x1000, entry_Padding = 0, Ctr = 9\<rparr>,
        tail_section sample_key 0xB000 0x10000 sample_iv]
   \<and> entry_end 0x8000 \<lparr>VirtualOffset = 0, entry_Size = 0x1000, entry_Padding = 0, Ctr = 9\<rparr>
       = 0x9000
   \<and> (0x9000 :: uint64) < ucast (MediaEndOffset sample_entry) * MediaSize
   \<and> tail_section sample_key 0x9000 0x10000 sample_iv \<notin>
       set [bktr_entry_section sample_key 0x8000 sample_iv
              \<lparr>VirtualOffset = 0x1000, entry_Size = 0x2000, entry_Padding = 0, Ctr = 7\<rparr>,
            bktr_entry_section sample_key 0x8000 sample_iv
              \<lparr>VirtualOffset = 0, entry_Size = 0x1000, entry_Padding = 0, Ctr = 9\<rparr>,
            tail_section sample_key 0xB000 0x10000 sample_iv]"
  by (simp add: sample_two_buckets_sections sample_offsets entry_end_def tail_section_def
      bktr_entry_section_def)

subsection \<open>Bounds violations in the BKTR index\<close>

























subsection \<open>The sorted section list\<close>

lemma GetEncryptionSections_Inr:
  "GetEncryptionSections A r h = Inr secs \<Longrightarrow>
   \<exists>emitted. planned_sections A r (TitleKey h) (zip (SectionTables h) (FsHeaders h)) = Inr emitted
     \<and> secs = sort_key sec_Offset emitted"
  by (auto simp: GetEncryptionSections_def split: sum.splits)

lemma non_overlapping_sym: "non_overlapping s t \<Longrightarrow> non_overlapping t s"
  by (auto simp: non_overlapping_def)

lemma sorted_wrt_insort_key:
  assumes "\<And>a b. P a b \<Longrightarrow> P b a"
  shows "sorted_wrt P (insort_key f x xs) \<longleftrightarrow> (\<forall>y \<in> set xs. P x y) \<and> sorted_wrt P xs"
  using assms by (induction xs) (auto simp: set_insort_key)

lemma sorted_wrt_sort_key:
  assumes "\<And>a b. P a b \<Longrightarrow> P b a"
  shows "sorted_wrt P (sort_key f xs) \<longleftrightarrow> sorted_wrt P xs"
proof (induction xs)
  case Nil
  then show ?case by simp
next
  case (Cons x xs)
  have "sort_key f (x # xs) = insort_key f x (sort_key f xs)"
    by (simp add: sort_key_def)
  then show ?case
    using Cons sorted_wrt_insort_key[of P f x "sort_key f xs", OF assms] by auto
qed

lemma strictly_increasing:
  assumes "sorted (map sec_Offset secs)" and "pairwise_non_overlapping secs"
    and "\<forall>s \<in> set secs. sec_Size s \<noteq> 0"
  shows "sorted_wrt (<) (map sec_Offset secs)"
proof -
  have 1: "sorted_wrt (\<lambda>a b. sec_Offset a \<le> sec_Offset b) secs"
    using assms(1) by (simp add: sorted_wrt_map)
  have 2: "sorted_wrt non_overlapping secs"
    using assms(2) by (simp add: pairwise_non_overlapping_def)
  have "sorted_wrt (\<lambda>a b. sec_Offset a \<le> sec_Offset b \<and> non_overlapping a b) secs"
    using 1 2 by (simp add: sorted_wrt_iff_nth_less)
  moreover have "sec_Offset a < sec_Offset b"
    if "a \<in> set secs" "b \<in> set secs" "sec_Offset a \<le> sec_Offset b \<and> non_overlapping a b" for a b
  proof -
    from that assms(3) have za: "unat (sec_Size a) \<noteq> 0" and zb: "unat (sec_Size b) \<noteq> 0"
      by (auto simp: unat_eq_0)
    from that(3) have le: "unat (sec_Offset a) \<le> unat (sec_Offset b)"
      by (simp add: word_le_nat_alt)
    from that(3) za zb le have "unat (sec_Offset a) < unat (sec_Offset b)"
      by (auto simp: non_overlapping_def sec_end_def)
    thus ?thesis by (simp add: word_less_nat_alt)
  qed
  ultimately have "sorted_wrt (\<lambda>a b. sec_Offset a < sec_Offset b) secs"
    by (rule sorted_wrt_mono_rel[rotated]) blast
  thus ?thesis by (simp add: sorted_wrt_map)
qed

lemma unat_media: "unat (ucast (m :: uint32) * (0x200 :: uint64)) = unat m * 512"
proof -
  have m: "unat m < 2 ^ 32" using unsigned_less[of m] by simp
  have "unat m < 2 ^ 64" by (rule order_less_trans[OF m]) simp
  hence u: "unat (ucast m :: uint64) = unat m"
    by (simp only: unsigned_ucast_eq) (simp add: take_bit_nat_eq_self)
  have "unat m * 512 < 2 ^ 32 * 512" using m by simp
  hence "unat m * 512 < 2 ^ 64" by simp
  hence "unat (ucast m :: uint64) * unat (0x200 :: uint64) < 2 ^ LENGTH(64)"
    using u by simp
  hence "unat (ucast m * (0x200 :: uint64)) = unat (ucast m :: uint64) * unat (0x200 :: uint64)"
    by (simp only: unat_mult_lem)
  thus ?thesis using u by simp
qed

lemma single_section_range:
  assumes "MediaStartOffset e \<le> MediaEndOffset e"
  shows "unat (sec_Offset (single_section tk e fs)) = entry_start e"
    and "sec_end (single_section tk e fs) = entry_stop e"
    and "unat (sec_Size (single_section tk e fs)) = entry_stop e - entry_start e"
proof -
  let ?a = "ucast (MediaStartOffset e) * (0x200 :: uint64)"
  let ?b = "ucast (MediaEndOffset e) * (0x200 :: uint64)"
  have le: "unat (MediaStartOffset e) \<le> unat (MediaEndOffset e)"
    using assms by (simp add: word_le_nat_alt)
  have a: "unat ?a = unat (MediaStartOffset e) * 512" by (rule unat_media)
  have b: "unat ?b = unat (MediaEndOffset e) * 512" by (rule unat_media)
  have "?a \<le> ?b" using le a b by (simp add: word_le_nat_alt)
  hence d: "unat (?b - ?a) = unat ?b - unat ?a" by (rule unat_sub)
  show "unat (sec_Offset (single_section tk e fs)) = entry_start e"
    using a by (simp add: single_section_def entry_start_def)
  show "unat (sec_Size (single_section tk e fs)) = entry_stop e - entry_start e"
    using a b d by (simp add: single_section_def entry_start_def entry_stop_def)
  show "sec_end (single_section tk e fs) = entry_stop e"
    using a b d le by (simp add: single_section_def sec_end_def entry_start_def entry_stop_def)
qed

lemma entry_sections_planned_single:
  assumes "\<not> vacant e" and "planned_single fs"
  shows "entry_sections A r tk e fs = Inr [single_section tk e fs]"
proof -
  have "\<not> (CryptoType fs = CryptoTypeBKTR
            \<and> (case BktrSubsection fs of None \<Rightarrow> False | Some bh \<Rightarrow> BktrSize bh > 0))"
    using assms(2) by (auto simp: planned_single_def word_gt_0 split: option.splits if_splits)
  thus ?thesis
    using assms(1)
    by (auto simp: entry_sections_def Let_def single_section_def MediaSize_def copy16_id vacant_def)
qed

lemma single_entry_ok:
  assumes "MediaStartOffset e < MediaEndOffset e" and "planned_single fs"
  shows "entry_sections A r tk e fs = Inr [single_section tk e fs]"
    and "entry_ok A r tk e fs"
proof -
  have nv: "\<not> vacant e" using assms(1) by (auto simp: vacant_def)
  show es: "entry_sections A r tk e fs = Inr [single_section tk e fs]"
    using nv assms(2) by (rule entry_sections_planned_single)
  have le: "MediaStartOffset e \<le> MediaEndOffset e" using assms(1) by simp
  have lt: "entry_start e < entry_stop e"
    using assms(1) by (simp add: entry_start_def entry_stop_def word_less_nat_alt)
  have "unat (sec_Size (single_section tk e fs)) \<noteq> 0"
    using single_section_range(3)[OF le, of tk fs] lt by simp
  hence "sec_Size (single_section tk e fs) \<noteq> 0" by (auto simp: unat_eq_0)
  thus "entry_ok A r tk e fs"
    using es single_section_range(1,2)[OF le, of tk fs]
    by (simp add: entry_ok_def within_entry_def pairwise_non_overlapping_def)
qed

lemma entry_sections_vacant: "vacant e \<Longrightarrow> entry_sections A r tk e fs = Inr []"
  by (simp add: entry_sections_def vacant_def)

lemma within_disjoint:
  assumes "within_entry e s" and "within_entry e' t"
    and "entry_stop e \<le> entry_start e' \<or> entry_stop e' \<le> entry_start e"
  shows "non_overlapping s t"
  using assms by (auto simp: within_entry_def non_overlapping_def sec_end_def)

lemma within_nonempty_not_vacant:
  assumes "within_entry e s" and "sec_Size s \<noteq> 0"
  shows "\<not> vacant e"
proof
  assume "vacant e"
  hence "entry_start e = 0" "entry_stop e = 0"
    by (simp_all add: vacant_def entry_start_def entry_stop_def)
  with assms(1) have "unat (sec_Size s) = 0"
    by (simp add: within_entry_def sec_end_def)
  with assms(2) show False by (simp add: unat_eq_0)
qed

lemma planned_sections_disjoint:
  assumes "planned_sections A r tk zs = Inr emitted"
    and "entries_disjoint zs"
    and "list_all (\<lambda>z. vacant (fst z) \<or> entry_ok A r tk (fst z) (snd z)) zs"
  shows "pairwise_non_overlapping emitted
    \<and> (\<forall>s \<in> set emitted. sec_Size s \<noteq> 0 \<and> (\<exists>z \<in> set zs. within_entry (fst z) s))"
  using assms
proof (induction zs arbitrary: emitted)
  case Nil
  then show ?case by (simp add: pairwise_non_overlapping_def)
next
  case (Cons z zs)
  obtain e fs where z: "z = (e, fs)" by (cases z)
  from Cons.prems(1) z obtain ss others where
    ss: "entry_sections A r tk e fs = Inr ss" and
    others: "planned_sections A r tk zs = Inr others" and
    em: "emitted = ss @ others"
    by (auto split: sum.splits)
  have dis: "entries_disjoint zs" and
    zdis: "\<forall>y \<in> set zs. vacant e \<or> vacant (fst y)
                   \<or> entry_stop e \<le> entry_start (fst y)
                   \<or> entry_stop (fst y) \<le> entry_start e"
    using Cons.prems(2) z by (simp_all add: entries_disjoint_def)
  have oks: "list_all (\<lambda>z. vacant (fst z) \<or> entry_ok A r tk (fst z) (snd z)) zs"
    using Cons.prems(3) by simp
  from Cons.IH[OF others dis oks] have
    ih1: "pairwise_non_overlapping others" and
    ih2: "\<forall>s \<in> set others. sec_Size s \<noteq> 0 \<and> (\<exists>z \<in> set zs. within_entry (fst z) s)"
    by simp_all
  have ssok: "(\<forall>s \<in> set ss. sec_Size s \<noteq> 0 \<and> within_entry e s) \<and> pairwise_non_overlapping ss"
  proof (cases "vacant e")
    case True
    with ss have "ss = []" by (simp add: entry_sections_vacant)
    thus ?thesis by (simp add: pairwise_non_overlapping_def)
  next
    case False
    with Cons.prems(3) z have "entry_ok A r tk e fs" by simp
    with ss show ?thesis by (simp add: entry_ok_def list_all_iff)
  qed
  have cross: "non_overlapping s t" if "s \<in> set ss" "t \<in> set others" for s t
  proof -
    from ssok that(1) have s: "sec_Size s \<noteq> 0" "within_entry e s" by simp_all
    from ih2 that(2) obtain y where y: "y \<in> set zs" "within_entry (fst y) t" and t: "sec_Size t \<noteq> 0"
      by blast
    have "\<not> vacant e" using s by (metis within_nonempty_not_vacant)
    moreover have "\<not> vacant (fst y)" using y(2) t by (metis within_nonempty_not_vacant)
    ultimately have "entry_stop e \<le> entry_start (fst y) \<or> entry_stop (fst y) \<le> entry_start e"
      using zdis y(1) by blast
    with s(2) y(2) show ?thesis by (rule within_disjoint)
  qed
  have "pairwise_non_overlapping emitted"
    using em ssok ih1 cross by (simp add: pairwise_non_overlapping_def sorted_wrt_append)
  moreover have "\<forall>s \<in> set emitted. sec_Size s \<noteq> 0 \<and> (\<exists>z \<in> set (z # zs). within_entry (fst z) s)"
    using em ssok ih2 z by auto
  ultimately show ?case by simp
qed

lemma count_list_insort_key: "count_list (insort_key f x xs) y = count_list (x # xs) y"
  by (induction xs) auto

lemma count_list_sort_key: "count_list (sort_key f xs) y = count_list xs y"
proof (induction xs)
  case Nil
  then show ?case by simp
next
  case (Cons x xs)
  have "sort_key f (x # xs) = insort_key f x (sort_key f xs)"
    by (simp add: sort_key_def)
  then show ?case using Cons by (simp add: count_list_insort_key)
qed

lemma sections_sorted_permutation:
  assumes "GetEncryptionSections A r h = Inr secs"
  shows "sorted (map sec_Offset secs)"
    and "case planned_sections A r (TitleKey h) (zip (SectionTables h) (FsHeaders h)) of
           Inr emitted \<Rightarrow> count_list secs s = count_list emitted s | Inl x \<Rightarrow> False"
  using GetEncryptionSections_Inr[OF assms] by (auto simp: count_list_sort_key)

lemma unat_add_nowrap:
  fixes x y :: uint64
  assumes "unat x + unat y < 2 ^ 64"
  shows "unat (x + y) = unat x + unat y"
  using assms by (simp add: unat_add_lem[THEN iffD1])

lemma nonzero_entries_sizes: "\<forall>e \<in> set (nonzero_entries buckets). entry_Size e \<noteq> 0"
  by (simp add: nonzero_entries_def)

lemma section_bounds:
  "unat (ucast (MediaStartOffset e) * MediaSize :: uint64) = entry_start e"
  "unat (ucast (MediaEndOffset e) * MediaSize :: uint64) = entry_stop e"
  "entry_stop e < 2 ^ 64"
proof -
  show "unat (ucast (MediaStartOffset e) * MediaSize :: uint64) = entry_start e"
    "unat (ucast (MediaEndOffset e) * MediaSize :: uint64) = entry_stop e"
    by (simp_all add: MediaSize_def unat_media entry_start_def entry_stop_def)
  have "unat (MediaEndOffset e) < 2 ^ 32" using unsigned_less[of "MediaEndOffset e"] by simp
  hence "entry_stop e < 2 ^ 32 * 512" by (simp add: entry_stop_def)
  thus "entry_stop e < 2 ^ 64" by simp
qed

text \<open>The cases of the planner for one entry, by \<open>fan_out_entries\<close>.\<close>

lemma not_planned_single:
  assumes "\<not> planned_single fs"
  obtains bh where "CryptoType fs = CryptoTypeBKTR" "BktrSubsection fs = Some bh" "BktrSize bh > 0"
  using assms
  by (auto simp: planned_single_def word_gt_0 split: if_splits option.splits)

lemma entry_sections_no_fan_out:
  assumes "\<not> vacant e" and "fan_out_entries A r tk e fs = None"
    and "entry_sections A r tk e fs = Inr ss"
  shows "ss = [single_section tk e fs]"
proof (cases "planned_single fs")
  case True
  from entry_sections_planned_single[OF assms(1) True, of A r tk] assms(3) show ?thesis by simp
next
  case False
  then obtain bh where ty: "CryptoType fs = CryptoTypeBKTR" and bh: "BktrSubsection fs = Some bh"
    and sz: "BktrSize bh > 0" by (rule not_planned_single)
  let ?SO = "ucast (MediaStartOffset e) * MediaSize :: uint64"
  let ?SE = "ucast (MediaEndOffset e) * MediaSize :: uint64"
  let ?iv = "buildBaseIV (CryptoCounter fs)"
  have nv: "\<not> (MediaStartOffset e = 0 \<and> MediaEndOffset e = 0)"
    using assms(1) by (simp add: vacant_def)
  note es = entry_sections_bktr[OF nv ty bh sz, of A r tk]
  have "parseBktrSections A r tk ?SO ?SE (Some bh) ?iv = Inr []"
  proof (cases "ParseBktrSubsectionBuckets A r (sint ?SO) (Some bh) tk ?iv")
    case (Inl err)
    show ?thesis
    proof (cases "is_panic err")
      case True
      with Inl have "parseBktrSections A r tk ?SO ?SE (Some bh) ?iv = Inl err"
        by (simp add: parseBktrSections_def)
      with es assms(3) show ?thesis by simp
    next
      case False
      with Inl show ?thesis by (simp add: parseBktrSections_def)
    qed
  next
    case (Inr buckets)
    with assms(2) False bh have "buckets = []"
      by (simp add: fan_out_entries_def split: if_splits)
    with Inr show ?thesis by (simp add: parseBktrSections_def)
  qed
  with es assms(3) show ?thesis by simp
qed

lemma entry_sections_fan_out_entries:
  assumes "\<not> vacant e" and "fan_out_entries A r tk e fs = Some nz" and "nz \<noteq> []"
  shows "\<exists>k. tk = Some k \<and>
     entry_sections A r tk e fs =
       Inr (map (bktr_entry_section k (ucast (MediaStartOffset e) * MediaSize)
                   (buildBaseIV (CryptoCounter fs))) nz
            @ (if Max (entry_end (ucast (MediaStartOffset e) * MediaSize) ` set nz)
                    < ucast (MediaEndOffset e) * MediaSize
               then [tail_section k
                       (Max (entry_end (ucast (MediaStartOffset e) * MediaSize) ` set nz))
                       (ucast (MediaEndOffset e) * MediaSize)
                       (buildBaseIV (CryptoCounter fs))]
               else []))"
proof -
  let ?SO = "ucast (MediaStartOffset e) * MediaSize :: uint64"
  let ?iv = "buildBaseIV (CryptoCounter fs)"
  from assms(2) have nps: "\<not> planned_single fs"
    by (auto simp: fan_out_entries_def split: if_splits)
  then obtain bh where ty: "CryptoType fs = CryptoTypeBKTR" and bh: "BktrSubsection fs = Some bh"
    and sz: "BktrSize bh > 0" by (rule not_planned_single)
  from assms(2) nps bh obtain buckets where
    p: "ParseBktrSubsectionBuckets A r (sint ?SO) (Some bh) tk ?iv = Inr buckets"
    and ne: "buckets \<noteq> []" and nz: "nz = nonzero_entries buckets"
    by (auto simp: fan_out_entries_def split: sum.splits if_splits)
  from p ne obtain k where k: "tk = Some k"
    by (cases tk) (auto simp: ParseBktrSubsectionBuckets_def split: if_splits)
  have nv: "\<not> (MediaStartOffset e = 0 \<and> MediaEndOffset e = 0)"
    using assms(1) by (simp add: vacant_def)
  from entry_sections_fan_out[OF nv ty bh sz p[unfolded k] assms(3)[unfolded nz]] k nz
  show ?thesis by simp
qed

text \<open>The positions of the sections of a fan-out, when no sum wraps around.\<close>

lemma fan_out_geometry:
  fixes SO :: uint64
  assumes "nz \<noteq> []" and "\<forall>x \<in> set nz. unat SO + virtual_end x < 2 ^ 64"
  shows "\<forall>x \<in> set nz. unat (SO + VirtualOffset x) = unat SO + unat (VirtualOffset x)"
    and "\<forall>x \<in> set nz. unat (entry_end SO x) = unat SO + virtual_end x"
    and "unat (Max (entry_end SO ` set nz)) = unat SO + Max (virtual_end ` set nz)"
proof -
  show 1: "\<forall>x \<in> set nz. unat (SO + VirtualOffset x) = unat SO + unat (VirtualOffset x)"
  proof
    fix x assume "x \<in> set nz"
    with assms(2) have "unat SO + unat (VirtualOffset x) < 2 ^ 64"
      by (auto simp: virtual_end_def dest: bspec)
    thus "unat (SO + VirtualOffset x) = unat SO + unat (VirtualOffset x)"
      by (rule unat_add_nowrap)
  qed
  show 2: "\<forall>x \<in> set nz. unat (entry_end SO x) = unat SO + virtual_end x"
  proof
    fix x assume x: "x \<in> set nz"
    with assms(2) have b: "unat SO + virtual_end x < 2 ^ 64" by blast
    from 1 x have o: "unat (SO + VirtualOffset x) = unat SO + unat (VirtualOffset x)" by blast
    have "unat (SO + VirtualOffset x) + unat (entry_Size x) < 2 ^ 64"
      using b o by (simp add: virtual_end_def)
    hence "unat (SO + VirtualOffset x + entry_Size x)
           = unat (SO + VirtualOffset x) + unat (entry_Size x)"
      by (rule unat_add_nowrap)
    thus "unat (entry_end SO x) = unat SO + virtual_end x"
      using o by (simp add: entry_end_def virtual_end_def)
  qed
  let ?M = "Max (entry_end SO ` set nz)"
  have fin: "finite (entry_end SO ` set nz)" and nem: "entry_end SO ` set nz \<noteq> {}"
    using assms(1) by simp_all
  from Max_in[OF fin nem] obtain y where y: "y \<in> set nz" and My: "?M = entry_end SO y" by blast
  have ge: "virtual_end x \<le> virtual_end y" if "x \<in> set nz" for x
  proof -
    have "entry_end SO x \<le> ?M" using that by (intro Max_ge) simp_all
    hence "unat (entry_end SO x) \<le> unat (entry_end SO y)"
      unfolding My by (simp add: word_le_nat_alt)
    with 2 that y show ?thesis by simp
  qed
  have "Max (virtual_end ` set nz) = virtual_end y"
    by (rule Max_eqI) (use y ge in auto)
  with 2 y My show "unat ?M = unat SO + Max (virtual_end ` set nz)" by simp
qed

lemma fan_out_entries_sizes:
  "fan_out_entries A r tk e fs = Some nz \<Longrightarrow> \<forall>x \<in> set nz. entry_Size x \<noteq> 0"
  by (auto simp: fan_out_entries_def nonzero_entries_def split: if_splits sum.splits)

lemma inside_no_wrap: "entries_inside e nz \<Longrightarrow> entries_no_wrap e nz"
  using section_bounds(3)[of e]
  by (auto simp: entries_inside_def entries_no_wrap_def list_all_iff)

lemma shifted_cover_iff:
  fixes a m :: nat
  shows "(\<Union>x \<in> S. {a + l x..<a + u x}) = {a..<a + m}
         \<longleftrightarrow> (\<Union>x \<in> S. {l x..<u x}) = {0..<m}"
proof -
  have 1: "(\<Union>x \<in> S. {a + l x..<a + u x}) = (+) a ` (\<Union>x \<in> S. {l x..<u x})"
  proof (rule set_eqI)
    fix p
    show "p \<in> (\<Union>x \<in> S. {a + l x..<a + u x}) \<longleftrightarrow> p \<in> (+) a ` (\<Union>x \<in> S. {l x..<u x})"
    proof
      assume "p \<in> (\<Union>x \<in> S. {a + l x..<a + u x})"
      then obtain x where x: "x \<in> S" "a + l x \<le> p" "p < a + u x" by auto
      have "l x \<le> p - a" "p - a < u x" using x(2,3) by arith+
      hence "p - a \<in> (\<Union>x \<in> S. {l x..<u x})" using x(1) by auto
      moreover have "p = a + (p - a)" using x by simp
      ultimately show "p \<in> (+) a ` (\<Union>x \<in> S. {l x..<u x})" by (rule rev_image_eqI)
    next
      assume "p \<in> (+) a ` (\<Union>x \<in> S. {l x..<u x})"
      thus "p \<in> (\<Union>x \<in> S. {a + l x..<a + u x})" by auto
    qed
  qed
  have 2: "{a..<a + m} = (+) a ` {0..<m}"
  proof (rule set_eqI)
    fix p
    show "p \<in> {a..<a + m} \<longleftrightarrow> p \<in> (+) a ` {0..<m}"
    proof
      assume p: "p \<in> {a..<a + m}"
      hence "p - a \<in> {0..<m}" by auto
      moreover have "p = a + (p - a)" using p by simp
      ultimately show "p \<in> (+) a ` {0..<m}" by (rule rev_image_eqI)
    next
      assume "p \<in> (+) a ` {0..<m}"
      thus "p \<in> {a..<a + m}" by auto
    qed
  qed
  have "inj ((+) a)" by (simp add: inj_on_def)
  thus ?thesis unfolding 1 2 by (rule inj_image_eq_iff)
qed

lemma fan_out_entry_ok:
  assumes nv: "\<not> vacant e" and fo: "fan_out_entries A r tk e fs = Some nz" and ne: "nz \<noteq> []"
    and inside: "entries_inside e nz" and apart: "entries_apart nz"
  shows "entry_ok A r tk e fs"
proof -
  let ?SO = "ucast (MediaStartOffset e) * MediaSize :: uint64"
  let ?SE = "ucast (MediaEndOffset e) * MediaSize :: uint64"
  let ?iv = "buildBaseIV (CryptoCounter fs)"
  let ?M = "Max (entry_end ?SO ` set nz)"
  let ?mv = "Max (virtual_end ` set nz)"
  from entry_sections_fan_out_entries[OF nv fo ne] obtain k where
    es: "entry_sections A r tk e fs =
       Inr (map (bktr_entry_section k ?SO ?iv) nz
            @ (if ?M < ?SE then [tail_section k ?M ?SE ?iv] else []))"
    by blast
  let ?mk = "bktr_entry_section k ?SO ?iv"
  note sb = section_bounds[of e]
  have ins: "\<forall>x \<in> set nz. entry_start e + virtual_end x \<le> entry_stop e"
    using inside by (simp add: entries_inside_def list_all_iff)
  hence nw: "\<forall>x \<in> set nz. unat ?SO + virtual_end x < 2 ^ 64"
    using sb by (auto simp del: of_nat_numeral)
  note g = fan_out_geometry[OF ne nw]
  have off: "\<forall>x \<in> set nz. unat (?SO + VirtualOffset x) = entry_start e + unat (VirtualOffset x)"
    using g(1) sb(1) by simp
  have M: "unat ?M = entry_start e + ?mv" using g(3) sb(1) by simp
  have mvge: "\<forall>x \<in> set nz. virtual_end x \<le> ?mv" by simp
  have mvin: "?mv \<in> virtual_end ` set nz" using ne by (intro Max_in) simp_all
  then obtain y where y: "y \<in> set nz" "?mv = virtual_end y" by blast
  have Mle: "entry_start e + ?mv \<le> entry_stop e" using ins y by simp
  have nzs: "\<forall>x \<in> set nz. entry_Size x \<noteq> 0" by (rule fan_out_entries_sizes[OF fo])
  have mk_ok: "\<forall>x \<in> set nz. sec_Size (?mk x) \<noteq> 0 \<and> within_entry e (?mk x)
                 \<and> sec_end (?mk x) \<le> entry_start e + ?mv"
  proof
    fix x assume x: "x \<in> set nz"
    have o: "unat (sec_Offset (?mk x)) = entry_start e + unat (VirtualOffset x)"
      using off x by (simp add: bktr_entry_section_def)
    have e: "sec_end (?mk x) = entry_start e + virtual_end x"
      using o by (simp add: sec_end_def virtual_end_def bktr_entry_section_def)
    show "sec_Size (?mk x) \<noteq> 0 \<and> within_entry e (?mk x)
                 \<and> sec_end (?mk x) \<le> entry_start e + ?mv"
      using nzs ins mvge x o e by (simp add: within_entry_def bktr_entry_section_def)
  qed
  have "sorted_wrt (\<lambda>a b. non_overlapping (?mk a) (?mk b)) nz"
  proof (rule sorted_wrt_mono_rel[rotated])
    show "sorted_wrt (\<lambda>a b. virtual_end a \<le> unat (VirtualOffset b)
                   \<or> virtual_end b \<le> unat (VirtualOffset a)) nz"
      using apart by (simp add: entries_apart_def)
  next
    fix a b assume ab: "a \<in> set nz" "b \<in> set nz"
      and d: "virtual_end a \<le> unat (VirtualOffset b) \<or> virtual_end b \<le> unat (VirtualOffset a)"
    have "unat (sec_Offset (?mk a)) = entry_start e + unat (VirtualOffset a)"
      "unat (sec_Offset (?mk b)) = entry_start e + unat (VirtualOffset b)"
      using off ab by (simp_all add: bktr_entry_section_def)
    thus "non_overlapping (?mk a) (?mk b)"
      using d by (auto simp: non_overlapping_def sec_end_def virtual_end_def bktr_entry_section_def)
  qed
  hence pw: "pairwise_non_overlapping (map ?mk nz)"
    by (simp add: pairwise_non_overlapping_def sorted_wrt_map)
  show ?thesis
  proof (cases "?M < ?SE")
    case True
    hence lt: "entry_start e + ?mv < entry_stop e"
      using M sb(2) by (simp add: word_less_nat_alt)
    let ?t = "tail_section k ?M ?SE ?iv"
    have "?M \<le> ?SE" using True by simp
    hence "unat (?SE - ?M) = unat ?SE - unat ?M" by (rule unat_sub)
    hence tsz: "unat (sec_Size ?t) = entry_stop e - (entry_start e + ?mv)"
      using M sb(2) by (simp add: tail_section_def)
    have toff: "unat (sec_Offset ?t) = entry_start e + ?mv"
      using M by (simp add: tail_section_def)
    have tnz: "sec_Size ?t \<noteq> 0" using tsz lt by (auto simp: unat_eq_0)
    have tw: "within_entry e ?t"
      using tsz toff lt by (simp add: within_entry_def sec_end_def)
    have cross: "\<forall>s \<in> set (map ?mk nz). non_overlapping s ?t"
      using mk_ok toff by (auto simp: non_overlapping_def)
    have pw': "pairwise_non_overlapping (map ?mk nz @ [?t])"
      using pw cross by (simp add: pairwise_non_overlapping_def sorted_wrt_append)
    have all: "list_all (\<lambda>s. sec_Size s \<noteq> 0 \<and> within_entry e s) (map ?mk nz @ [?t])"
      using mk_ok tnz tw by (simp add: list_all_iff)
    have es': "entry_sections A r tk e fs = Inr (map ?mk nz @ [?t])"
      using es True by simp
    show ?thesis using pw' all by (simp add: es' entry_ok_def)
  next
    case False
    have all: "list_all (\<lambda>s. sec_Size s \<noteq> 0 \<and> within_entry e s) (map ?mk nz)"
      using mk_ok by (simp add: list_all_iff)
    have es': "entry_sections A r tk e fs = Inr (map ?mk nz)"
      using es False by simp
    show ?thesis using pw all by (simp add: es' entry_ok_def)
  qed
qed

lemma fan_out_covers_iff:
  assumes nv: "\<not> vacant e" and fo: "fan_out_entries A r tk e fs = Some nz" and ne: "nz \<noteq> []"
    and nowrap: "entries_no_wrap e nz"
  shows "case entry_sections A r tk e fs of
           Inr ss \<Rightarrow> covers e ss \<longleftrightarrow> entries_inside e nz \<and> entries_gapless nz
         | Inl x \<Rightarrow> False"
proof -
  let ?SO = "ucast (MediaStartOffset e) * MediaSize :: uint64"
  let ?SE = "ucast (MediaEndOffset e) * MediaSize :: uint64"
  let ?iv = "buildBaseIV (CryptoCounter fs)"
  let ?M = "Max (entry_end ?SO ` set nz)"
  let ?mv = "Max (virtual_end ` set nz)"
  let ?so = "entry_start e"
  let ?stop = "entry_stop e"
  from entry_sections_fan_out_entries[OF nv fo ne] obtain k where
    es: "entry_sections A r tk e fs =
       Inr (map (bktr_entry_section k ?SO ?iv) nz
            @ (if ?M < ?SE then [tail_section k ?M ?SE ?iv] else []))"
    by blast
  let ?mk = "bktr_entry_section k ?SO ?iv"
  note sb = section_bounds[of e]
  have nw: "\<forall>x \<in> set nz. unat ?SO + virtual_end x < 2 ^ 64"
    using nowrap sb(1) by (simp add: entries_no_wrap_def list_all_iff)
  note g = fan_out_geometry[OF ne nw]
  have off: "\<forall>x \<in> set nz. unat (?SO + VirtualOffset x) = ?so + unat (VirtualOffset x)"
    using g(1) sb(1) by simp
  have M: "unat ?M = ?so + ?mv" using g(3) sb(1) by simp
  have mvge: "\<forall>x \<in> set nz. virtual_end x \<le> ?mv" by simp
  have nzs: "\<forall>x \<in> set nz. entry_Size x \<noteq> 0" by (rule fan_out_entries_sizes[OF fo])
  have rng: "\<forall>x \<in> set nz. sec_range (?mk x) = {?so + unat (VirtualOffset x)..<?so + virtual_end x}"
    using off by (simp add: sec_range_def bktr_entry_section_def virtual_end_def add.assoc)
  define U where "U = (\<Union>x \<in> set nz. {?so + unat (VirtualOffset x)..<?so + virtual_end x})"
  have Umk: "(\<Union>s \<in> set (map ?mk nz). sec_range s) = U"
    unfolding U_def using rng by simp
  have Usub: "U \<subseteq> {?so..<?so + ?mv}"
  proof
    fix p assume "p \<in> U"
    then obtain x where x: "x \<in> set nz" "?so + unat (VirtualOffset x) \<le> p"
      "p < ?so + virtual_end x" unfolding U_def by auto
    have "virtual_end x \<le> ?mv" using x(1) by simp
    with x(2,3) show "p \<in> {?so..<?so + ?mv}" by simp
  qed
  have gap: "U = {?so..<?so + ?mv} \<longleftrightarrow> entries_gapless nz"
    unfolding U_def entries_gapless_def by (rule shifted_cover_iff)
  have ins: "entries_inside e nz \<longleftrightarrow> ?so + ?mv \<le> ?stop"
  proof
    assume "entries_inside e nz"
    hence a: "\<forall>x \<in> set nz. ?so + virtual_end x \<le> ?stop"
      by (simp add: entries_inside_def list_all_iff)
    have "?mv \<in> virtual_end ` set nz" using ne by (intro Max_in) simp_all
    with a show "?so + ?mv \<le> ?stop" by auto
  next
    assume le: "?so + ?mv \<le> ?stop"
    have "?so + virtual_end x \<le> ?stop" if "x \<in> set nz" for x
    proof -
      have "virtual_end x \<le> ?mv" using that by simp
      with le show ?thesis by simp
    qed
    thus "entries_inside e nz" by (simp add: entries_inside_def list_all_iff)
  qed
  show ?thesis
  proof (cases "?M < ?SE")
    case True
    hence lt: "?so + ?mv < ?stop" using M sb(2) by (simp add: word_less_nat_alt)
    let ?t = "tail_section k ?M ?SE ?iv"
    have "?M \<le> ?SE" using True by simp
    hence "unat (?SE - ?M) = unat ?SE - unat ?M" by (rule unat_sub)
    hence tsz: "unat (sec_Size ?t) = ?stop - (?so + ?mv)"
      using M sb(2) by (simp add: tail_section_def)
    have toff: "unat (sec_Offset ?t) = ?so + ?mv" using M by (simp add: tail_section_def)
    have tr: "sec_range ?t = {?so + ?mv..<?stop}"
      using tsz toff lt by (simp add: sec_range_def)
    have un: "(\<Union>s \<in> set (map ?mk nz @ [?t]). sec_range s) = U \<union> {?so + ?mv..<?stop}"
      using Umk tr by auto
    have "U \<union> {?so + ?mv..<?stop} = {?so..<?stop} \<longleftrightarrow> U = {?so..<?so + ?mv}"
    proof
      assume eq: "U \<union> {?so + ?mv..<?stop} = {?so..<?stop}"
      show "U = {?so..<?so + ?mv}"
      proof (rule equalityI[OF Usub], rule subsetI)
        fix p assume p: "p \<in> {?so..<?so + ?mv}"
        hence "p \<in> {?so..<?stop}" using lt by auto
        hence "p \<in> U \<union> {?so + ?mv..<?stop}" using eq by simp
        with p show "p \<in> U" by auto
      qed
    next
      assume "U = {?so..<?so + ?mv}"
      thus "U \<union> {?so + ?mv..<?stop} = {?so..<?stop}" using lt by auto
    qed
    hence "covers e (map ?mk nz @ [?t]) \<longleftrightarrow> entries_gapless nz"
      unfolding covers_def un gap .
    moreover have "entries_inside e nz" using ins lt by simp
    moreover have "entry_sections A r tk e fs = Inr (map ?mk nz @ [?t])"
      using es True by simp
    ultimately show ?thesis by simp
  next
    case False
    hence ge: "?stop \<le> ?so + ?mv" using M sb(2) by (simp add: word_less_nat_alt)
    have es': "entry_sections A r tk e fs = Inr (map ?mk nz)" using es False by simp
    have "covers e (map ?mk nz) \<longleftrightarrow> entries_inside e nz \<and> entries_gapless nz"
    proof (cases "?so + ?mv \<le> ?stop")
      case True
      with ge have eq: "?so + ?mv = ?stop" by simp
      have "covers e (map ?mk nz) \<longleftrightarrow> U = {?so..<?so + ?mv}"
        unfolding covers_def Umk eq ..
      thus ?thesis using gap ins True by simp
    next
      case out: False
      have "?mv \<in> virtual_end ` set nz" using ne by (intro Max_in) simp_all
      then obtain y where y: "y \<in> set nz" and my: "?mv = virtual_end y" by blast
      from nzs y have "unat (entry_Size y) \<noteq> 0" by (simp add: unat_eq_0)
      hence vy: "unat (VirtualOffset y) < virtual_end y" by (simp add: virtual_end_def)
      define p where "p = ?so + virtual_end y - 1"
      have "p \<in> {?so + unat (VirtualOffset y)..<?so + virtual_end y}"
        using vy by (auto simp: p_def)
      hence pU: "p \<in> U" unfolding U_def using y by blast
      have "?stop \<le> p" using out my by (simp add: p_def)
      hence "p \<notin> {?so..<?stop}" by simp
      with pU have "U \<noteq> {?so..<?stop}" by blast
      hence "\<not> covers e (map ?mk nz)" unfolding covers_def Umk .
      with ins out show ?thesis by simp
    qed
    thus ?thesis by (simp add: es')
  qed
qed

lemma single_covers_iff:
  "covers e [single_section tk e fs] \<longleftrightarrow> MediaStartOffset e \<le> MediaEndOffset e"
proof
  assume le: "MediaStartOffset e \<le> MediaEndOffset e"
  from single_section_range[OF le, of tk fs]
  show "covers e [single_section tk e fs]"
    by (simp add: covers_def sec_range_def sec_end_def)
next
  assume c: "covers e [single_section tk e fs]"
  show "MediaStartOffset e \<le> MediaEndOffset e"
  proof (rule ccontr)
    assume "\<not> MediaStartOffset e \<le> MediaEndOffset e"
    hence gt: "entry_stop e < entry_start e"
      by (simp add: entry_start_def entry_stop_def word_le_nat_alt)
    let ?SO = "ucast (MediaStartOffset e) * MediaSize :: uint64"
    let ?SE = "ucast (MediaEndOffset e) * MediaSize :: uint64"
    note sb = section_bounds[of e]
    have "?SE \<noteq> ?SO" using gt sb(1,2) by auto
    hence "?SE - ?SO \<noteq> 0" by simp
    hence "unat (sec_Size (single_section tk e fs)) \<noteq> 0"
      by (simp add: single_section_def MediaSize_def unat_eq_0)
    hence "sec_range (single_section tk e fs) \<noteq> {}" by (simp add: sec_range_def)
    moreover have "{entry_start e..<entry_stop e} = {}" using gt by simp
    ultimately show False using c by (simp add: covers_def)
  qed
qed

lemma single_section_ok:
  assumes "MediaStartOffset e < MediaEndOffset e"
    and "entry_sections A r tk e fs = Inr [single_section tk e fs]"
  shows "entry_ok A r tk e fs"
proof -
  have le: "MediaStartOffset e \<le> MediaEndOffset e" using assms(1) by simp
  have lt: "entry_start e < entry_stop e"
    using assms(1) by (simp add: entry_start_def entry_stop_def word_less_nat_alt)
  have "unat (sec_Size (single_section tk e fs)) \<noteq> 0"
    using single_section_range(3)[OF le, of tk fs] lt by simp
  hence "sec_Size (single_section tk e fs) \<noteq> 0" by (auto simp: unat_eq_0)
  thus "entry_ok A r tk e fs"
    using assms(2) single_section_range(1,2)[OF le, of tk fs]
    by (simp add: entry_ok_def within_entry_def pairwise_non_overlapping_def)
qed

lemma well_formed_entry_ok:
  assumes "\<not> vacant e" and "entry_well_formed A r tk e fs"
    and "entry_sections A r tk e fs = Inr ss"
  shows "entry_ok A r tk e fs"
proof (cases "fan_out_entries A r tk e fs")
  case None
  from entry_sections_no_fan_out[OF assms(1) None assms(3)] assms(3)
  have "entry_sections A r tk e fs = Inr [single_section tk e fs]" by simp
  moreover have "MediaStartOffset e < MediaEndOffset e"
    using assms(2) by (simp add: entry_well_formed_def)
  ultimately show ?thesis by (rule single_section_ok[rotated])
next
  case (Some nz)
  with assms(2) have "nz \<noteq> []" "entries_inside e nz" "entries_apart nz"
    by (simp_all add: entry_well_formed_def)
  from fan_out_entry_ok[OF assms(1) Some this] show ?thesis .
qed

lemma planned_sections_entries:
  "planned_sections A r tk zs = Inr emitted \<Longrightarrow> z \<in> set zs \<Longrightarrow>
   \<exists>ss. entry_sections A r tk (fst z) (snd z) = Inr ss"
proof (induction zs arbitrary: emitted)
  case Nil
  then show ?case by simp
next
  case (Cons y zs)
  obtain e fs where y: "y = (e, fs)" by (cases y)
  from Cons.prems(1) y obtain ss others where
    ss: "entry_sections A r tk e fs = Inr ss" and
    others: "planned_sections A r tk zs = Inr others"
    by (auto split: sum.splits)
  show ?case
  proof (cases "z = y")
    case True
    with ss y show ?thesis by simp
  next
    case False
    with Cons.prems(2) have "z \<in> set zs" by simp
    from Cons.IH[OF others this] show ?thesis .
  qed
qed

lemma well_formed_entries_ok:
  assumes "planned_sections A r tk zs = Inr emitted"
    and "list_all (\<lambda>z. vacant (fst z) \<or> entry_well_formed A r tk (fst z) (snd z)) zs"
  shows "list_all (\<lambda>z. vacant (fst z) \<or> entry_ok A r tk (fst z) (snd z)) zs"
  unfolding list_all_iff
proof
  fix z assume z: "z \<in> set zs"
  from planned_sections_entries[OF assms(1) z] obtain ss where
    ss: "entry_sections A r tk (fst z) (snd z) = Inr ss" by blast
  from assms(2) z have "vacant (fst z) \<or> entry_well_formed A r tk (fst z) (snd z)"
    by (simp add: list_all_iff)
  thus "vacant (fst z) \<or> entry_ok A r tk (fst z) (snd z)"
    using well_formed_entry_ok[OF _ _ ss] by blast
qed

lemma sections_strictly_increasing:
  assumes "GetEncryptionSections A r h = Inr secs" and "header_well_formed A r h"
  shows "sorted_wrt (<) (map sec_Offset secs) \<and> pairwise_non_overlapping secs"
proof -
  let ?zs = "zip (SectionTables h) (FsHeaders h)"
  from GetEncryptionSections_Inr[OF assms(1)] obtain emitted where
    pl: "planned_sections A r (TitleKey h) ?zs = Inr emitted"
    and secs: "secs = sort_key sec_Offset emitted" by blast
  from assms(2) have dis: "entries_disjoint ?zs"
    and wf: "list_all (\<lambda>z. vacant (fst z) \<or> entry_well_formed A r (TitleKey h) (fst z) (snd z)) ?zs"
    by (simp_all add: header_well_formed_def)
  note oks = well_formed_entries_ok[OF pl wf]
  from planned_sections_disjoint[OF pl dis oks] have
    1: "pairwise_non_overlapping emitted" and 2: "\<forall>s \<in> set emitted. sec_Size s \<noteq> 0"
    by simp_all
  have 3: "pairwise_non_overlapping secs"
    using 1 secs sorted_wrt_sort_key[of non_overlapping sec_Offset emitted, OF non_overlapping_sym]
    by (simp add: pairwise_non_overlapping_def)
  have 4: "sorted (map sec_Offset secs)" using secs by simp
  have 5: "\<forall>s \<in> set secs. sec_Size s \<noteq> 0" using 2 secs by simp
  from strictly_increasing[OF 4 3 5] 3 show ?thesis by simp
qed

lemma planner_entry_returns:
  assumes "GetEncryptionSections A r h = Inr secs"
    and "(e, fs) \<in> set (zip (SectionTables h) (FsHeaders h))"
  shows "\<exists>ss. entry_sections A r (TitleKey h) e fs = Inr ss"
proof -
  from GetEncryptionSections_Inr[OF assms(1)] obtain emitted where
    pl: "planned_sections A r (TitleKey h) (zip (SectionTables h) (FsHeaders h)) = Inr emitted"
    by blast
  from planned_sections_entries[OF pl assms(2)] show ?thesis by simp
qed

lemma parse_contiguous: "parse_bktr_data index_contiguous =
  [\<lparr>bucket_Padding = 0, EntryCount = 2, EndOffset = 0x3000,
     Entries = [\<lparr>VirtualOffset = 0, entry_Size = 0x1000, entry_Padding = 0, Ctr = 7\<rparr>,
                \<lparr>VirtualOffset = 0x1000, entry_Size = 0x2000, entry_Padding = 0, Ctr = 9\<rparr>]\<rparr>]"
  by (simp add: parse_bktr_data_def index_contiguous_def subslice_def LittleEndian_Uint32_def
      LittleEndian_Uint64_def bucket_loop.simps entry_loop.simps parse_entry_def Let_def)

lemma nonzero_contiguous:
  "nonzero_entries (parse_bktr_data index_contiguous) =
     [\<lparr>VirtualOffset = 0, entry_Size = 0x1000, entry_Padding = 0, Ctr = 7\<rparr>,
      \<lparr>VirtualOffset = 0x1000, entry_Size = 0x2000, entry_Padding = 0, Ctr = 9\<rparr>]"
  by (simp add: parse_contiguous nonzero_entries_def)

lemma contiguous_facts:
  "unat (0x4030 :: uint64) = length index_contiguous"
  "index_contiguous \<noteq> []" "length index_contiguous < 2 ^ 32"
  by (simp_all add: index_contiguous_def)

lemma contiguous_parse:
  "ParseBktrSubsectionBuckets zero_cipher (file_with_index index_contiguous)
     (sint (ucast (MediaStartOffset sample_entry) * MediaSize :: uint64))
     (Some (sample_bktr 0x4030)) (Some sample_key)
     (buildBaseIV (CryptoCounter (sample_fs 0x4030))) =
   Inr (parse_bktr_data index_contiguous)"
  unfolding sample_fs_fields by (rule sample_parse[OF contiguous_facts])

lemma sample_contiguous_sections:
  "entry_sections zero_cipher (file_with_index index_contiguous) (Some sample_key)
     sample_entry (sample_fs 0x4030) =
   Inr [bktr_entry_section sample_key 0x8000 sample_iv
          \<lparr>VirtualOffset = 0, entry_Size = 0x1000, entry_Padding = 0, Ctr = 7\<rparr>,
        bktr_entry_section sample_key 0x8000 sample_iv
          \<lparr>VirtualOffset = 0x1000, entry_Size = 0x2000, entry_Padding = 0, Ctr = 9\<rparr>,
        tail_section sample_key 0xB000 0x10000 sample_iv]"
proof -
  have nz: "nonzero_entries (parse_bktr_data index_contiguous) \<noteq> []"
    by (simp add: nonzero_contiguous)
  have g: "BktrSize (sample_bktr 0x4030) > 0" by (simp add: sample_fs_fields)
  show ?thesis
    unfolding entry_sections_fan_out[OF sample_offsets(3) sample_fs_fields(1,2) g contiguous_parse nz]
    by (simp add: nonzero_contiguous sample_offsets sample_fs_fields entry_end_def)
qed

lemma ctr_fs_single: "planned_single ctr_fs"
  by (simp add: planned_single_def ctr_fs_def CryptoTypeBKTR_def)

lemma sample_ranges:
  "entry_start sample_entry = 0x8000" "entry_stop sample_entry = 0x10000"
  "entry_start second_entry = 0x10000" "entry_stop second_entry = 0x18000"
  "\<not> vacant sample_entry" "\<not> vacant second_entry" "vacant vacant_entry"
  "MediaStartOffset sample_entry < MediaEndOffset sample_entry"
  "MediaStartOffset second_entry < MediaEndOffset second_entry"
  by (simp_all add: entry_start_def entry_stop_def sample_entry_def second_entry_def
      vacant_entry_def vacant_def)

lemma sample_single_sections:
  "entry_sections A r tk second_entry ctr_fs = Inr [single_section tk second_entry ctr_fs]"
  "entry_sections A r tk sample_entry ctr_fs = Inr [single_section tk sample_entry ctr_fs]"
  "entry_sections A r tk vacant_entry fs = Inr []"
  by (simp_all add: single_entry_ok(1) sample_ranges ctr_fs_single entry_sections_vacant)

lemma single_section_offsets:
  "sec_Offset (single_section tk second_entry fs) = 0x10000"
  "sec_Size (single_section tk second_entry fs) = 0x8000"
  "sec_Offset (single_section tk sample_entry fs) = 0x8000"
  "sec_Size (single_section tk sample_entry fs) = 0x8000"
  by (simp_all add: single_section_def second_entry_def sample_entry_def)

lemma sample_sorted_sections:
  "GetEncryptionSections zero_cipher (file_with_index index_contiguous)
     (sample_header [second_entry, sample_entry, vacant_entry, vacant_entry]
        [ctr_fs, sample_fs 0x4030, ctr_fs, ctr_fs]) =
   Inr [bktr_entry_section sample_key 0x8000 sample_iv
          \<lparr>VirtualOffset = 0, entry_Size = 0x1000, entry_Padding = 0, Ctr = 7\<rparr>,
        bktr_entry_section sample_key 0x8000 sample_iv
          \<lparr>VirtualOffset = 0x1000, entry_Size = 0x2000, entry_Padding = 0, Ctr = 9\<rparr>,
        tail_section sample_key 0xB000 0x10000 sample_iv,
        single_section (Some sample_key) second_entry ctr_fs]"
  by (simp add: GetEncryptionSections_def sample_header_def sample_single_sections
      sample_contiguous_sections single_section_offsets bktr_entry_section_def tail_section_def)

lemma duplicate_sections:
  "GetEncryptionSections A r
     (sample_header [sample_entry, sample_entry, vacant_entry, vacant_entry]
        [ctr_fs, ctr_fs, ctr_fs, ctr_fs]) =
   Inr [single_section (Some sample_key) sample_entry ctr_fs,
        single_section (Some sample_key) sample_entry ctr_fs]"
  by (simp add: GetEncryptionSections_def sample_header_def sample_single_sections)

lemma sample_fs_not_single: "n \<noteq> 0 \<Longrightarrow> \<not> planned_single (sample_fs n)"
  by (simp add: planned_single_def sample_fs_def sample_bktr_def CryptoTypeBKTR_def)

lemma fan_out_samples:
  "fan_out_entries A r tk e ctr_fs = None"
  "fan_out_entries zero_cipher (file_with_index index_contiguous) (Some sample_key)
     sample_entry (sample_fs 0x4030) =
   Some [\<lparr>VirtualOffset = 0, entry_Size = 0x1000, entry_Padding = 0, Ctr = 7\<rparr>,
         \<lparr>VirtualOffset = 0x1000, entry_Size = 0x2000, entry_Padding = 0, Ctr = 9\<rparr>]"
proof -
  show "fan_out_entries A r tk e ctr_fs = None"
    by (simp add: fan_out_entries_def ctr_fs_single)
  have n: "\<not> planned_single (sample_fs 0x4030)" by (rule sample_fs_not_single) simp
  show "fan_out_entries zero_cipher (file_with_index index_contiguous) (Some sample_key)
     sample_entry (sample_fs 0x4030) =
   Some [\<lparr>VirtualOffset = 0, entry_Size = 0x1000, entry_Padding = 0, Ctr = 7\<rparr>,
         \<lparr>VirtualOffset = 0x1000, entry_Size = 0x2000, entry_Padding = 0, Ctr = 9\<rparr>]"
    unfolding fan_out_entries_def sample_fs_fields(2) contiguous_parse
    using n by (simp add: parse_contiguous nonzero_entries_def)
qed

lemma contiguous_entries_facts:
  "entries_inside sample_entry
     [\<lparr>VirtualOffset = 0, entry_Size = 0x1000, entry_Padding = 0, Ctr = 7\<rparr>,
      \<lparr>VirtualOffset = 0x1000, entry_Size = 0x2000, entry_Padding = 0, Ctr = 9\<rparr>]"
  "entries_no_wrap sample_entry
     [\<lparr>VirtualOffset = 0, entry_Size = 0x1000, entry_Padding = 0, Ctr = 7\<rparr>,
      \<lparr>VirtualOffset = 0x1000, entry_Size = 0x2000, entry_Padding = 0, Ctr = 9\<rparr>]"
  "entries_apart
     [\<lparr>VirtualOffset = 0, entry_Size = 0x1000, entry_Padding = 0, Ctr = 7\<rparr>,
      \<lparr>VirtualOffset = 0x1000, entry_Size = 0x2000, entry_Padding = 0, Ctr = 9\<rparr>]"
  "entries_gapless
     [\<lparr>VirtualOffset = 0, entry_Size = 0x1000, entry_Padding = 0, Ctr = 7\<rparr>,
      \<lparr>VirtualOffset = 0x1000, entry_Size = 0x2000, entry_Padding = 0, Ctr = 9\<rparr>]"
proof -
  show "entries_inside sample_entry
     [\<lparr>VirtualOffset = 0, entry_Size = 0x1000, entry_Padding = 0, Ctr = 7\<rparr>,
      \<lparr>VirtualOffset = 0x1000, entry_Size = 0x2000, entry_Padding = 0, Ctr = 9\<rparr>]"
    by (simp add: entries_inside_def virtual_end_def sample_ranges)
  show "entries_no_wrap sample_entry
     [\<lparr>VirtualOffset = 0, entry_Size = 0x1000, entry_Padding = 0, Ctr = 7\<rparr>,
      \<lparr>VirtualOffset = 0x1000, entry_Size = 0x2000, entry_Padding = 0, Ctr = 9\<rparr>]"
    by (simp add: entries_no_wrap_def virtual_end_def sample_ranges)
  show "entries_apart
     [\<lparr>VirtualOffset = 0, entry_Size = 0x1000, entry_Padding = 0, Ctr = 7\<rparr>,
      \<lparr>VirtualOffset = 0x1000, entry_Size = 0x2000, entry_Padding = 0, Ctr = 9\<rparr>]"
    by (simp add: entries_apart_def virtual_end_def)
  have "{0..<4096} \<union> {4096..<12288} = {0..<12288::nat}" by auto
  thus "entries_gapless
     [\<lparr>VirtualOffset = 0, entry_Size = 0x1000, entry_Padding = 0, Ctr = 7\<rparr>,
      \<lparr>VirtualOffset = 0x1000, entry_Size = 0x2000, entry_Padding = 0, Ctr = 9\<rparr>]"
    by (simp add: entries_gapless_def virtual_end_def)
qed

lemma sample_header_well_formed:
  "header_well_formed zero_cipher (file_with_index index_contiguous)
     (sample_header [second_entry, sample_entry, vacant_entry, vacant_entry]
        [ctr_fs, sample_fs 0x4030, ctr_fs, ctr_fs])"
  by (simp add: header_well_formed_def sample_header_def entries_disjoint_def sample_ranges
      entry_well_formed_def fan_out_samples contiguous_entries_facts)

lemma more_ranges:
  "\<not> vacant empty_entry" "\<not> vacant reversed_entry"
  "entry_start empty_entry = 0x8000" "entry_stop empty_entry = 0x8000"
  "entry_start reversed_entry = 0x10000" "entry_stop reversed_entry = 0x8000"
  by (simp_all add: entry_start_def entry_stop_def empty_entry_def reversed_entry_def vacant_def)

lemma more_single_sections:
  "entry_sections A r tk empty_entry ctr_fs = Inr [single_section tk empty_entry ctr_fs]"
  "entry_sections A r tk reversed_entry ctr_fs = Inr [single_section tk reversed_entry ctr_fs]"
  by (simp_all add: entry_sections_planned_single more_ranges ctr_fs_single)

lemma more_single_offsets:
  "sec_Offset (single_section tk empty_entry fs) = 0x8000"
  "sec_Size (single_section tk empty_entry fs) = 0"
  "sec_Offset (single_section tk reversed_entry fs) = 0x10000"
  "sec_Size (single_section tk reversed_entry fs) = 0xFFFFFFFFFFFF8000"
  by (simp_all add: single_section_def empty_entry_def reversed_entry_def)

lemma empty_entry_sections:
  "GetEncryptionSections A r
     (sample_header [empty_entry, sample_entry, vacant_entry, vacant_entry]
        [ctr_fs, ctr_fs, ctr_fs, ctr_fs]) =
   Inr [single_section (Some sample_key) empty_entry ctr_fs,
        single_section (Some sample_key) sample_entry ctr_fs]"
  by (simp add: GetEncryptionSections_def sample_header_def sample_single_sections
      more_single_sections single_section_offsets more_single_offsets)

lemma reversed_entry_sections:
  "GetEncryptionSections A r
     (sample_header [reversed_entry, vacant_entry, vacant_entry, vacant_entry]
        [ctr_fs, ctr_fs, ctr_fs, ctr_fs]) =
   Inr [single_section (Some sample_key) reversed_entry ctr_fs]"
  by (simp add: GetEncryptionSections_def sample_header_def sample_single_sections
      more_single_sections)

lemma parse_gap_overlap: "parse_bktr_data index_gap_overlap =
  [\<lparr>bucket_Padding = 0, EntryCount = 1, EndOffset = 0x3000,
     Entries = [\<lparr>VirtualOffset = 0x1000, entry_Size = 0x2000, entry_Padding = 0, Ctr = 7\<rparr>]\<rparr>,
   \<lparr>bucket_Padding = 0, EntryCount = 1, EndOffset = 0x3000,
     Entries = [\<lparr>VirtualOffset = 0x2000, entry_Size = 0x1000, entry_Padding = 0, Ctr = 9\<rparr>]\<rparr>]"
  by (simp add: parse_bktr_data_def index_gap_overlap_def subslice_def LittleEndian_Uint32_def
      LittleEndian_Uint64_def bucket_loop.simps entry_loop.simps parse_entry_def Let_def)

lemma nonzero_gap_overlap:
  "nonzero_entries (parse_bktr_data index_gap_overlap) =
     [\<lparr>VirtualOffset = 0x1000, entry_Size = 0x2000, entry_Padding = 0, Ctr = 7\<rparr>,
      \<lparr>VirtualOffset = 0x2000, entry_Size = 0x1000, entry_Padding = 0, Ctr = 9\<rparr>]"
  by (simp add: parse_gap_overlap nonzero_entries_def)

lemma gap_overlap_facts:
  "unat (0x4040 :: uint64) = length index_gap_overlap"
  "index_gap_overlap \<noteq> []" "length index_gap_overlap < 2 ^ 32"
  by (simp_all add: index_gap_overlap_def)

lemma gap_overlap_parse:
  "ParseBktrSubsectionBuckets zero_cipher (file_with_index index_gap_overlap)
     (sint (ucast (MediaStartOffset sample_entry) * MediaSize :: uint64))
     (Some (sample_bktr 0x4040)) (Some sample_key)
     (buildBaseIV (CryptoCounter (sample_fs 0x4040))) =
   Inr (parse_bktr_data index_gap_overlap)"
  unfolding sample_fs_fields by (rule sample_parse[OF gap_overlap_facts])

lemma sample_gap_overlap_sections:
  "entry_sections zero_cipher (file_with_index index_gap_overlap) (Some sample_key)
     sample_entry (sample_fs 0x4040) =
   Inr [bktr_entry_section sample_key 0x8000 sample_iv
          \<lparr>VirtualOffset = 0x1000, entry_Size = 0x2000, entry_Padding = 0, Ctr = 7\<rparr>,
        bktr_entry_section sample_key 0x8000 sample_iv
          \<lparr>VirtualOffset = 0x2000, entry_Size = 0x1000, entry_Padding = 0, Ctr = 9\<rparr>,
        tail_section sample_key 0xB000 0x10000 sample_iv]"
proof -
  have nz: "nonzero_entries (parse_bktr_data index_gap_overlap) \<noteq> []"
    by (simp add: nonzero_gap_overlap)
  have g: "BktrSize (sample_bktr 0x4040) > 0" by (simp add: sample_fs_fields)
  show ?thesis
    unfolding entry_sections_fan_out[OF sample_offsets(3) sample_fs_fields(1,2) g gap_overlap_parse nz]
    by (simp add: nonzero_gap_overlap sample_offsets sample_fs_fields entry_end_def)
qed

lemma gap_overlap_sections:
  "GetEncryptionSections zero_cipher (file_with_index index_gap_overlap)
     (sample_header [sample_entry, vacant_entry, vacant_entry, vacant_entry]
        [sample_fs 0x4040, ctr_fs, ctr_fs, ctr_fs]) =
   Inr [bktr_entry_section sample_key 0x8000 sample_iv
          \<lparr>VirtualOffset = 0x1000, entry_Size = 0x2000, entry_Padding = 0, Ctr = 7\<rparr>,
        bktr_entry_section sample_key 0x8000 sample_iv
          \<lparr>VirtualOffset = 0x2000, entry_Size = 0x1000, entry_Padding = 0, Ctr = 9\<rparr>,
        tail_section sample_key 0xB000 0x10000 sample_iv]"
  by (simp add: GetEncryptionSections_def sample_header_def sample_single_sections
      sample_gap_overlap_sections bktr_entry_section_def tail_section_def)

lemma gap_overlap_not_covered:
  "\<not> covers sample_entry
     [bktr_entry_section sample_key 0x8000 sample_iv
        \<lparr>VirtualOffset = 0x1000, entry_Size = 0x2000, entry_Padding = 0, Ctr = 7\<rparr>,
      bktr_entry_section sample_key 0x8000 sample_iv
        \<lparr>VirtualOffset = 0x2000, entry_Size = 0x1000, entry_Padding = 0, Ctr = 9\<rparr>,
      tail_section sample_key 0xB000 0x10000 sample_iv]"
proof
  assume "covers sample_entry
     [bktr_entry_section sample_key 0x8000 sample_iv
        \<lparr>VirtualOffset = 0x1000, entry_Size = 0x2000, entry_Padding = 0, Ctr = 7\<rparr>,
      bktr_entry_section sample_key 0x8000 sample_iv
        \<lparr>VirtualOffset = 0x2000, entry_Size = 0x1000, entry_Padding = 0, Ctr = 9\<rparr>,
      tail_section sample_key 0xB000 0x10000 sample_iv]"
  hence "{36864..<45056} \<union> ({40960..<45056} \<union> {45056..<65536}) = {32768..<65536::nat}"
    by (simp add: covers_def sec_range_def bktr_entry_section_def tail_section_def sample_ranges)
  moreover have "(32768::nat) \<in> {32768..<65536}" by simp
  ultimately have "(32768::nat) \<in> {36864..<45056} \<union> ({40960..<45056} \<union> {45056..<65536})"
    by (simp only:)
  thus False by simp
qed

text \<open>
  C5, as amended. Whenever the planner returns a section list for an NCA header:

  \<^item> the list is sorted by offset (each offset at most the next one), and it holds
    exactly the sections emitted for the section table entries, each as often as it
    was emitted;

  \<^item> if the header is well formed (\<open>header_well_formed\<close>: the non-vacant section table
    entries have \<open>media_start < media_end\<close> and pairwise disjoint ranges, and where an
    entry is fanned out, the index has an entry of non-zero size, and its entries of
    non-zero size end inside the section and do not overlap), the offsets of the
    list are strictly increasing and its sections are pairwise non-overlapping;

  \<^item> for a non-vacant entry of the section table that is not fanned out (the fan-out
    is not tried, or the parser returns an error or no bucket), the planner emits the
    single section, and it covers the entry's range \<open>[section_offset, section_end)\<close>
    exactly when \<open>media_start \<le> media_end\<close>;

  \<^item> for a non-vacant entry of the section table that is fanned out over the entries
    \<open>nz\<close> of non-zero size, at least one, with no sum of the section's start and an
    entry's end reaching \<open>2^64\<close>, the sections emitted for it cover the entry's range
    exactly when every entry ends inside the section and the entries leave no gap
    between the virtual offset 0 and the greatest end among them.
\<close>

theorem C5_sorted_section_list:
  assumes "GetEncryptionSections A r h = Inr secs"
  shows "sorted (map sec_Offset secs)
    \<and> (case planned_sections A r (TitleKey h) (zip (SectionTables h) (FsHeaders h)) of
          Inr emitted \<Rightarrow> count_list secs s = count_list emitted s
        | Inl x \<Rightarrow> False)
    \<and> (header_well_formed A r h
        \<longrightarrow> sorted_wrt (<) (map sec_Offset secs) \<and> pairwise_non_overlapping secs)
    \<and> ((e, fs) \<in> set (zip (SectionTables h) (FsHeaders h)) \<and> \<not> vacant e
        \<and> fan_out_entries A r (TitleKey h) e fs = None
        \<longrightarrow> entry_sections A r (TitleKey h) e fs = Inr [single_section (TitleKey h) e fs]
            \<and> (covers e [single_section (TitleKey h) e fs]
                \<longleftrightarrow> MediaStartOffset e \<le> MediaEndOffset e))
    \<and> ((e', fs') \<in> set (zip (SectionTables h) (FsHeaders h)) \<and> \<not> vacant e'
        \<and> fan_out_entries A r (TitleKey h) e' fs' = Some nz \<and> nz \<noteq> []
        \<and> entries_no_wrap e' nz
        \<longrightarrow> (case entry_sections A r (TitleKey h) e' fs' of
               Inr ss \<Rightarrow> covers e' ss \<longleftrightarrow> entries_inside e' nz \<and> entries_gapless nz
             | Inl x \<Rightarrow> False))"
proof -
  note sp = sections_sorted_permutation[OF assms]
  have 3: "sorted_wrt (<) (map sec_Offset secs) \<and> pairwise_non_overlapping secs"
    if "header_well_formed A r h"
    using sections_strictly_increasing[OF assms that] .
  have 4: "entry_sections A r (TitleKey h) e fs = Inr [single_section (TitleKey h) e fs]
            \<and> (covers e [single_section (TitleKey h) e fs]
                \<longleftrightarrow> MediaStartOffset e \<le> MediaEndOffset e)"
    if "(e, fs) \<in> set (zip (SectionTables h) (FsHeaders h))" "\<not> vacant e"
       "fan_out_entries A r (TitleKey h) e fs = None"
  proof -
    from planner_entry_returns[OF assms that(1)] obtain ss where
      ss: "entry_sections A r (TitleKey h) e fs = Inr ss" by blast
    from entry_sections_no_fan_out[OF that(2,3) ss] ss single_covers_iff[of e "TitleKey h" fs]
    show ?thesis by simp
  qed
  have 5: "case entry_sections A r (TitleKey h) e' fs' of
               Inr ss \<Rightarrow> covers e' ss \<longleftrightarrow> entries_inside e' nz \<and> entries_gapless nz
             | Inl x \<Rightarrow> False"
    if "\<not> vacant e'" "fan_out_entries A r (TitleKey h) e' fs' = Some nz" "nz \<noteq> []"
       "entries_no_wrap e' nz"
    using that by (rule fan_out_covers_iff)
  from sp 3 4 5 show ?thesis by blast
qed

text \<open>
  The theorem at a header whose section table lists a CTR section for the bytes 0x10000
  to 0x18000 before a BKTR section for the bytes 0x8000 to 0x10000 with the contiguous
  sample index: the sorted list holds the two BKTR entries, the tail and the CTR section.
\<close>

theorem C5_witness:
  "GetEncryptionSections zero_cipher (file_with_index index_contiguous)
     (sample_header [second_entry, sample_entry, vacant_entry, vacant_entry]
        [ctr_fs, sample_fs 0x4030, ctr_fs, ctr_fs]) =
   Inr [bktr_entry_section sample_key 0x8000 sample_iv
          \<lparr>VirtualOffset = 0, entry_Size = 0x1000, entry_Padding = 0, Ctr = 7\<rparr>,
        bktr_entry_section sample_key 0x8000 sample_iv
          \<lparr>VirtualOffset = 0x1000, entry_Size = 0x2000, entry_Padding = 0, Ctr = 9\<rparr>,
        tail_section sample_key 0xB000 0x10000 sample_iv,
        single_section (Some sample_key) second_entry ctr_fs]
   \<and> header_well_formed zero_cipher (file_with_index index_contiguous)
        (sample_header [second_entry, sample_entry, vacant_entry, vacant_entry]
           [ctr_fs, sample_fs 0x4030, ctr_fs, ctr_fs])
   \<and> \<not> vacant second_entry
   \<and> fan_out_entries zero_cipher (file_with_index index_contiguous) (Some sample_key)
        second_entry ctr_fs = None
   \<and> MediaStartOffset second_entry \<le> MediaEndOffset second_entry
   \<and> \<not> vacant sample_entry
   \<and> fan_out_entries zero_cipher (file_with_index index_contiguous) (Some sample_key)
        sample_entry (sample_fs 0x4030) =
      Some [\<lparr>VirtualOffset = 0, entry_Size = 0x1000, entry_Padding = 0, Ctr = 7\<rparr>,
            \<lparr>VirtualOffset = 0x1000, entry_Size = 0x2000, entry_Padding = 0, Ctr = 9\<rparr>]
   \<and> entries_no_wrap sample_entry
        [\<lparr>VirtualOffset = 0, entry_Size = 0x1000, entry_Padding = 0, Ctr = 7\<rparr>,
         \<lparr>VirtualOffset = 0x1000, entry_Size = 0x2000, entry_Padding = 0, Ctr = 9\<rparr>]
   \<and> entries_inside sample_entry
        [\<lparr>VirtualOffset = 0, entry_Size = 0x1000, entry_Padding = 0, Ctr = 7\<rparr>,
         \<lparr>VirtualOffset = 0x1000, entry_Size = 0x2000, entry_Padding = 0, Ctr = 9\<rparr>]
   \<and> entries_gapless
        [\<lparr>VirtualOffset = 0, entry_Size = 0x1000, entry_Padding = 0, Ctr = 7\<rparr>,
         \<lparr>VirtualOffset = 0x1000, entry_Size = 0x2000, entry_Padding = 0, Ctr = 9\<rparr>]
   \<and> sorted_wrt (<) (map sec_Offset
        [bktr_entry_section sample_key 0x8000 sample_iv
           \<lparr>VirtualOffset = 0, entry_Size = 0x1000, entry_Padding = 0, Ctr = 7\<rparr>,
         bktr_entry_section sample_key 0x8000 sample_iv
           \<lparr>VirtualOffset = 0x1000, entry_Size = 0x2000, entry_Padding = 0, Ctr = 9\<rparr>,
         tail_section sample_key 0xB000 0x10000 sample_iv,
         single_section (Some sample_key) second_entry ctr_fs])
   \<and> pairwise_non_overlapping
        [bktr_entry_section sample_key 0x8000 sample_iv
           \<lparr>VirtualOffset = 0, entry_Size = 0x1000, entry_Padding = 0, Ctr = 7\<rparr>,
         bktr_entry_section sample_key 0x8000 sample_iv
           \<lparr>VirtualOffset = 0x1000, entry_Size = 0x2000, entry_Padding = 0, Ctr = 9\<rparr>,
         tail_section sample_key 0xB000 0x10000 sample_iv,
         single_section (Some sample_key) second_entry ctr_fs]
   \<and> covers second_entry [single_section (Some sample_key) second_entry ctr_fs]
   \<and> covers sample_entry
        [bktr_entry_section sample_key 0x8000 sample_iv
           \<lparr>VirtualOffset = 0, entry_Size = 0x1000, entry_Padding = 0, Ctr = 7\<rparr>,
         bktr_entry_section sample_key 0x8000 sample_iv
           \<lparr>VirtualOffset = 0x1000, entry_Size = 0x2000, entry_Padding = 0, Ctr = 9\<rparr>,
         tail_section sample_key 0xB000 0x10000 sample_iv]"
proof -
  let ?r = "file_with_index index_contiguous"
  let ?h = "sample_header [second_entry, sample_entry, vacant_entry, vacant_entry]
              [ctr_fs, sample_fs 0x4030, ctr_fs, ctr_fs]"
  let ?zs = "zip [second_entry, sample_entry, vacant_entry, vacant_entry]
               [ctr_fs, sample_fs 0x4030, ctr_fs, ctr_fs]"
  let ?nz = "[\<lparr>VirtualOffset = 0, entry_Size = 0x1000, entry_Padding = 0, Ctr = 7\<rparr>,
              \<lparr>VirtualOffset = 0x1000, entry_Size = 0x2000, entry_Padding = 0, Ctr = 9\<rparr>]"
  have tk: "TitleKey ?h = Some sample_key" and
    zs: "zip (SectionTables ?h) (FsHeaders ?h) = ?zs"
    by (simp_all add: sample_header_def)
  have m1: "(second_entry, ctr_fs) \<in> set ?zs" and m2: "(sample_entry, sample_fs 0x4030) \<in> set ?zs"
    by simp_all
  have le: "MediaStartOffset second_entry \<le> MediaEndOffset second_entry"
    using sample_ranges(9) by simp
  have ne: "?nz \<noteq> []" by simp
  note f1 = fan_out_samples(1)[of zero_cipher ?r "Some sample_key" second_entry]
  note inst = C5_sorted_section_list[OF sample_sorted_sections,
      of _ second_entry ctr_fs sample_entry "sample_fs 0x4030" ?nz, unfolded tk zs]
  from inst m1 sample_ranges(6) f1 le
  have cov1: "covers second_entry [single_section (Some sample_key) second_entry ctr_fs]"
    by blast
  from inst m2 sample_ranges(5) fan_out_samples(2) ne contiguous_entries_facts(2)
  have "case entry_sections zero_cipher ?r (Some sample_key) sample_entry (sample_fs 0x4030) of
          Inr ss \<Rightarrow> covers sample_entry ss \<longleftrightarrow> entries_inside sample_entry ?nz \<and> entries_gapless ?nz
        | Inl x \<Rightarrow> False"
    by blast
  hence cov2: "covers sample_entry
        [bktr_entry_section sample_key 0x8000 sample_iv
           \<lparr>VirtualOffset = 0, entry_Size = 0x1000, entry_Padding = 0, Ctr = 7\<rparr>,
         bktr_entry_section sample_key 0x8000 sample_iv
           \<lparr>VirtualOffset = 0x1000, entry_Size = 0x2000, entry_Padding = 0, Ctr = 9\<rparr>,
         tail_section sample_key 0xB000 0x10000 sample_iv]"
    using contiguous_entries_facts(1,4) by (simp add: sample_contiguous_sections)
  from inst sample_header_well_formed
  have "sorted_wrt (<) (map sec_Offset
        [bktr_entry_section sample_key 0x8000 sample_iv
           \<lparr>VirtualOffset = 0, entry_Size = 0x1000, entry_Padding = 0, Ctr = 7\<rparr>,
         bktr_entry_section sample_key 0x8000 sample_iv
           \<lparr>VirtualOffset = 0x1000, entry_Size = 0x2000, entry_Padding = 0, Ctr = 9\<rparr>,
         tail_section sample_key 0xB000 0x10000 sample_iv,
         single_section (Some sample_key) second_entry ctr_fs])
   \<and> pairwise_non_overlapping
        [bktr_entry_section sample_key 0x8000 sample_iv
           \<lparr>VirtualOffset = 0, entry_Size = 0x1000, entry_Padding = 0, Ctr = 7\<rparr>,
         bktr_entry_section sample_key 0x8000 sample_iv
           \<lparr>VirtualOffset = 0x1000, entry_Size = 0x2000, entry_Padding = 0, Ctr = 9\<rparr>,
         tail_section sample_key 0xB000 0x10000 sample_iv,
         single_section (Some sample_key) second_entry ctr_fs]"
    by blast
  with sample_sorted_sections sample_header_well_formed sample_ranges(6) f1 le sample_ranges(5)
    fan_out_samples(2) contiguous_entries_facts(2,1,4) cov1 cov2
  show ?thesis by blast
qed

text \<open>
  C5 as stated, for every NCA, fails at four headers, of which the planner checks
  nothing. With the same section table entry twice (the media units 0x40 to 0x80, CTR)
  the list holds the section for the bytes 0x8000 to 0x10000 twice: its offsets are not
  strictly increasing and its sections overlap. With an entry for the media units 0x40
  to 0x40 beside the entry for 0x40 to 0x80, two sections have the offset 0x8000, in
  whichever order the sort leaves them. With a BKTR index whose entries are at the
  virtual offsets 0x1000 to 0x3000 and 0x2000 to 0x3000, the sections of the entry
  overlap and do not hold the bytes 0x8000 to 0x9000 of its range. With an entry for
  the media units 0x80 to 0x40 the range is empty and the section's size, computed in
  64 bits, is \<open>2^64 - 0x8000\<close>.
\<close>

theorem C5_counterexample:
  "GetEncryptionSections zero_cipher []
     (sample_header [sample_entry, sample_entry, vacant_entry, vacant_entry]
        [ctr_fs, ctr_fs, ctr_fs, ctr_fs]) =
   Inr [single_section (Some sample_key) sample_entry ctr_fs,
        single_section (Some sample_key) sample_entry ctr_fs]
   \<and> \<not> sorted_wrt (<) (map sec_Offset
          [single_section (Some sample_key) sample_entry ctr_fs,
           single_section (Some sample_key) sample_entry ctr_fs])
   \<and> \<not> pairwise_non_overlapping
          [single_section (Some sample_key) sample_entry ctr_fs,
           single_section (Some sample_key) sample_entry ctr_fs]
   \<and> GetEncryptionSections zero_cipher []
        (sample_header [empty_entry, sample_entry, vacant_entry, vacant_entry]
           [ctr_fs, ctr_fs, ctr_fs, ctr_fs]) =
      Inr [single_section (Some sample_key) empty_entry ctr_fs,
           single_section (Some sample_key) sample_entry ctr_fs]
   \<and> \<not> sorted_wrt (<) (map sec_Offset
          [single_section (Some sample_key) empty_entry ctr_fs,
           single_section (Some sample_key) sample_entry ctr_fs])
   \<and> \<not> sorted_wrt (<) (map sec_Offset
          [single_section (Some sample_key) sample_entry ctr_fs,
           single_section (Some sample_key) empty_entry ctr_fs])
   \<and> GetEncryptionSections zero_cipher (file_with_index index_gap_overlap)
        (sample_header [sample_entry, vacant_entry, vacant_entry, vacant_entry]
           [sample_fs 0x4040, ctr_fs, ctr_fs, ctr_fs]) =
      Inr [bktr_entry_section sample_key 0x8000 sample_iv
             \<lparr>VirtualOffset = 0x1000, entry_Size = 0x2000, entry_Padding = 0, Ctr = 7\<rparr>,
           bktr_entry_section sample_key 0x8000 sample_iv
             \<lparr>VirtualOffset = 0x2000, entry_Size = 0x1000, entry_Padding = 0, Ctr = 9\<rparr>,
           tail_section sample_key 0xB000 0x10000 sample_iv]
   \<and> \<not> pairwise_non_overlapping
          [bktr_entry_section sample_key 0x8000 sample_iv
             \<lparr>VirtualOffset = 0x1000, entry_Size = 0x2000, entry_Padding = 0, Ctr = 7\<rparr>,
           bktr_entry_section sample_key 0x8000 sample_iv
             \<lparr>VirtualOffset = 0x2000, entry_Size = 0x1000, entry_Padding = 0, Ctr = 9\<rparr>,
           tail_section sample_key 0xB000 0x10000 sample_iv]
   \<and> \<not> covers sample_entry
          [bktr_entry_section sample_key 0x8000 sample_iv
             \<lparr>VirtualOffset = 0x1000, entry_Size = 0x2000, entry_Padding = 0, Ctr = 7\<rparr>,
           bktr_entry_section sample_key 0x8000 sample_iv
             \<lparr>VirtualOffset = 0x2000, entry_Size = 0x1000, entry_Padding = 0, Ctr = 9\<rparr>,
           tail_section sample_key 0xB000 0x10000 sample_iv]
   \<and> GetEncryptionSections zero_cipher []
        (sample_header [reversed_entry, vacant_entry, vacant_entry, vacant_entry]
           [ctr_fs, ctr_fs, ctr_fs, ctr_fs]) =
      Inr [single_section (Some sample_key) reversed_entry ctr_fs]
   \<and> sec_Size (single_section (Some sample_key) reversed_entry ctr_fs) = 0xFFFFFFFFFFFF8000
   \<and> \<not> covers reversed_entry [single_section (Some sample_key) reversed_entry ctr_fs]"
proof -
  have 1: "\<not> sorted_wrt (<) (map sec_Offset
          [single_section (Some sample_key) sample_entry ctr_fs,
           single_section (Some sample_key) sample_entry ctr_fs])"
    "\<not> pairwise_non_overlapping
          [single_section (Some sample_key) sample_entry ctr_fs,
           single_section (Some sample_key) sample_entry ctr_fs]"
    by (simp_all add: pairwise_non_overlapping_def non_overlapping_def sec_end_def
        single_section_offsets)
  have 2: "\<not> sorted_wrt (<) (map sec_Offset
          [single_section (Some sample_key) empty_entry ctr_fs,
           single_section (Some sample_key) sample_entry ctr_fs])"
    "\<not> sorted_wrt (<) (map sec_Offset
          [single_section (Some sample_key) sample_entry ctr_fs,
           single_section (Some sample_key) empty_entry ctr_fs])"
    by (simp_all add: single_section_offsets more_single_offsets)
  have 3: "\<not> pairwise_non_overlapping
          [bktr_entry_section sample_key 0x8000 sample_iv
             \<lparr>VirtualOffset = 0x1000, entry_Size = 0x2000, entry_Padding = 0, Ctr = 7\<rparr>,
           bktr_entry_section sample_key 0x8000 sample_iv
             \<lparr>VirtualOffset = 0x2000, entry_Size = 0x1000, entry_Padding = 0, Ctr = 9\<rparr>,
           tail_section sample_key 0xB000 0x10000 sample_iv]"
    by (simp add: pairwise_non_overlapping_def non_overlapping_def sec_end_def
        bktr_entry_section_def tail_section_def)
  have 4: "\<not> covers reversed_entry [single_section (Some sample_key) reversed_entry ctr_fs]"
    by (simp add: single_covers_iff reversed_entry_def)
  from duplicate_sections[of zero_cipher "[]"] 1 empty_entry_sections[of zero_cipher "[]"] 2
    gap_overlap_sections 3 gap_overlap_not_covered
    reversed_entry_sections[of zero_cipher "[]"] more_single_offsets(4) 4
  show ?thesis by blast
qed

end
